theory Spec2Isabelle
  imports Complex_Main "HOL-Library.Multiset" "HOL-Library.List_Lexorder" "HOL-Library.Char_ord"
begin

section \<open>JavaScript values\<close>

text \<open>
  The trend chart works on plain JavaScript values. A JavaScript number is modelled as
  an exact real or \<open>NaN\<close>: rounding, overflow and the infinities of IEEE doubles are not
  modelled, and every division of the code that is modelled has a divisor that is a
  positive count. The other values a record of the bid API can carry are \<open>undefined\<close>
  (a missing property), \<open>null\<close>, booleans and strings.
\<close>

datatype number = NaN | Num real

datatype jsval = JUndefined | JNull | JBool bool | JNumber number | JString string

datatype error = RangeError

text \<open>
  What the host decides: the offset of local time from UTC in minutes (constant, no
  daylight saving), the conversion of a string to a number (\<open>Number(s)\<close>) and the
  parsing of a date string (\<open>Date.parse(s)\<close>, \<open>None\<close> for \<open>NaN\<close>).
\<close>

record host =
  tzMinutes :: int
  StringToNumber :: "string \<Rightarrow> number"
  Date_parse :: "string \<Rightarrow> int option"

fun ToNumber :: "host \<Rightarrow> jsval \<Rightarrow> number" where
  "ToNumber h JUndefined = NaN"
| "ToNumber h JNull = Num 0"
| "ToNumber h (JBool b) = Num (if b then 1 else 0)"
| "ToNumber h (JNumber n) = n"
| "ToNumber h (JString s) = StringToNumber h s"

text \<open>\<open>v == null\<close>\<close>

fun looseNull :: "jsval \<Rightarrow> bool" where
  "looseNull JUndefined = True"
| "looseNull JNull = True"
| "looseNull _ = False"

text \<open>The global \<open>isNaN(v)\<close> converts its argument first.\<close>

definition isNaN :: "host \<Rightarrow> jsval \<Rightarrow> bool" where
  "isNaN h v = (ToNumber h v = NaN)"

text \<open>\<open>typeof v === 'number'\<close> and \<open>Number.isNaN(v)\<close> do not convert.\<close>

fun typeof_number :: "jsval \<Rightarrow> bool" where
  "typeof_number (JNumber n) = True"
| "typeof_number _ = False"

definition Number_isNaN :: "jsval \<Rightarrow> bool" where
  "Number_isNaN v = (v = JNumber NaN)"

fun nmul :: "number \<Rightarrow> number \<Rightarrow> number" where
  "nmul (Num a) (Num b) = Num (a * b)"
| "nmul _ _ = NaN"

fun nadd :: "number \<Rightarrow> number \<Rightarrow> number" where
  "nadd (Num a) (Num b) = Num (a + b)"
| "nadd _ _ = NaN"

text \<open>A value that is a number or \<open>null\<close>.\<close>

type_synonym nullable = "number option"

fun ofNullable :: "nullable \<Rightarrow> jsval" where
  "ofNullable None = JNull"
| "ofNullable (Some n) = JNumber n"

section \<open>Records and chart points\<close>

text \<open>
  The five tracked properties of a record are, in the order of the source: the estimated
  price, the base amount, the winning amount, and the ratios base/winning and
  estimated/winning. A point is an object: a property that is absent reads \<open>undefined\<close>.
  \<open>EMA f\<close> and \<open>LOESS f\<close> are the derived properties \<open>f_EMA\<close> and \<open>f_LOESS\<close>.
\<close>

datatype field = EstimatedPrice | BasePrice | WinningPrice | BaseToWinning | EstimatedToWinning

datatype key = BidDate | Orig field | EMA field | LOESS field

type_synonym point = "key \<Rightarrow> jsval"

definition toPercent :: "host \<Rightarrow> jsval \<Rightarrow> jsval" where
  "toPercent h v = (if looseNull v then JNull else JNumber (nmul (ToNumber h v) (Num 100)))"

section \<open>Series statistics\<close>

record fieldStats =
  stat_avg :: "real option"
  stat_min :: "real option"
  stat_max :: "real option"

text \<open>The filter \<open>typeof v === 'number' && !Number.isNaN(v)\<close>, keeping the numbers.\<close>

definition validNumbers :: "jsval list \<Rightarrow> real list" where
  "validNumbers vs = [x. JNumber (Num x) \<leftarrow> vs]"

fun statsOf :: "real list \<Rightarrow> fieldStats" where
  "statsOf [] = \<lparr>stat_avg = None, stat_min = None, stat_max = None\<rparr>"
| "statsOf (v # vs) =
     (let sum = foldl (+) 0 (v # vs);
          avg = sum / real (length (v # vs))
      in \<lparr>stat_avg = Some avg, stat_min = Some (foldl min v vs), stat_max = Some (foldl max v vs)\<rparr>)"

definition computeStats :: "point list \<Rightarrow> key list \<Rightarrow> (key \<rightharpoonup> fieldStats)" where
  "computeStats data keys =
     foldl (\<lambda>stats key. stats(key \<mapsto> statsOf (validNumbers (map (\<lambda>d. d key) data)))) Map.empty keys"

section \<open>EMA smoother\<close>

fun emaLoop :: "host \<Rightarrow> real \<Rightarrow> key \<Rightarrow> jsval \<Rightarrow> point list \<Rightarrow> jsval list" where
  "emaLoop h alpha key ema [] = []"
| "emaLoop h alpha key ema (d # ds) =
     (let value = d key in
      if looseNull value \<or> isNaN h value then JNull # emaLoop h alpha key ema ds
      else let ema' = (if ema = JNull then value
                       else JNumber (nadd (nmul (Num alpha) (ToNumber h value))
                                          (nmul (Num (1 - alpha)) (ToNumber h ema))))
           in ema' # emaLoop h alpha key ema' ds)"

definition calculateEMA :: "host \<Rightarrow> point list \<Rightarrow> key \<Rightarrow> nat \<Rightarrow> jsval list" where
  "calculateEMA h data key spanN = emaLoop h (2 / (real spanN + 1)) key JNull data"

section \<open>LOESS smoother\<close>

definition tricube :: "int \<Rightarrow> nat \<Rightarrow> nat \<Rightarrow> real" where
  "tricube windowSize i j =
     (1 - (\<bar>real_of_int (int i - int j)\<bar> / real_of_int windowSize) ^ 3) ^ 3"

text \<open>
  One round of the inner loop: a value with \<open>v == null\<close> or \<open>isNaN(v)\<close> is skipped, any
  other value enters with the number it converts to.
\<close>

fun loessAccum :: "host \<Rightarrow> jsval list \<Rightarrow> int \<Rightarrow> nat \<Rightarrow> real \<times> real \<Rightarrow> nat \<Rightarrow> real \<times> real" where
  "loessAccum h values windowSize i (weightedSum, weightSum) j =
     (if looseNull (values ! j) then (weightedSum, weightSum)
      else case ToNumber h (values ! j) of
             NaN \<Rightarrow> (weightedSum, weightSum)
           | Num x \<Rightarrow> (let weight = tricube windowSize i j
                      in (weightedSum + weight * x, weightSum + weight)))"

definition loessWindowSize :: "nat \<Rightarrow> real \<Rightarrow> int" where
  "loessWindowSize n bandwidth = max 3 \<lfloor>real n * bandwidth\<rfloor>"

definition loessStart :: "int \<Rightarrow> nat \<Rightarrow> int" where
  "loessStart windowSize i = max 0 (int i - windowSize div 2)"

definition loessEnd :: "nat \<Rightarrow> int \<Rightarrow> nat \<Rightarrow> int" where
  "loessEnd n windowSize i = min (int n) (loessStart windowSize i + windowSize)"

definition loessAt :: "host \<Rightarrow> jsval list \<Rightarrow> real \<Rightarrow> nat \<Rightarrow> nullable" where
  "loessAt h values bandwidth i =
     (let n = length values; value = values ! i in
      if looseNull value \<or> isNaN h value then None
      else let windowSize = loessWindowSize n bandwidth;
               start = loessStart windowSize i;
               endIdx = loessEnd n windowSize i;
               (weightedSum, weightSum) =
                 foldl (loessAccum h values windowSize i) (0, 0) [nat start..<nat endIdx]
           in if weightSum > 0 then Some (Num (weightedSum / weightSum)) else None)"

definition calculateLOESS :: "host \<Rightarrow> point list \<Rightarrow> key \<Rightarrow> real \<Rightarrow> nullable list" where
  "calculateLOESS h data key bandwidth =
     (let values = map (\<lambda>d. d key) data
      in map (loessAt h values bandwidth) [0..<length values])"

section \<open>Forecast extrapolation\<close>

definition predictEMA :: "jsval \<Rightarrow> nat \<Rightarrow> jsval list" where
  "predictEMA lastEMA months = replicate months lastEMA"

text \<open>
  The filter \<open>v != null && !isNaN(v)\<close> on a series of numbers and \<open>null\<close>, and
  \<open>v || null\<close>, which is \<open>null\<close> for \<open>undefined\<close> and for the number 0.
\<close>

definition validLoess :: "nullable list \<Rightarrow> real list" where
  "validLoess vs = [x. Some (Num x) \<leftarrow> vs]"

definition lastOrNull :: "real list \<Rightarrow> nullable" where
  "lastOrNull validValues =
     (if validValues = [] then None
      else if last validValues = 0 then None
      else Some (Num (last validValues)))"

definition predictLOESS :: "nullable list \<Rightarrow> nat \<Rightarrow> nullable list" where
  "predictLOESS loessValues months =
     (let validValues = validLoess loessValues in
      if length validValues < 2 then replicate months (lastOrNull validValues)
      else let lastN = min 5 (length validValues);
               recentValues = drop (length validValues - lastN) validValues;
               slope = (last recentValues - hd recentValues) / (real lastN - 1);
               lastValue = last validValues
           in map (\<lambda>i. Some (Num (lastValue + slope * real i))) [1..<Suc months])"

section \<open>Dates\<close>

text \<open>
  A time value is a number of milliseconds since 1970-01-01T00:00Z, or \<open>NaN\<close> (here
  \<open>None\<close>) for an invalid date. The functions below are the abstract operations of the
  ECMAScript specification on time values; \<open>YearFromTime\<close> is computed from an estimate
  that is at most one year off.
\<close>

definition msPerDay :: int where
  "msPerDay = 86400000"

definition Day :: "int \<Rightarrow> int" where
  "Day t = t div msPerDay"

definition TimeWithinDay :: "int \<Rightarrow> int" where
  "TimeWithinDay t = t mod msPerDay"

definition DaysInYear :: "int \<Rightarrow> int" where
  "DaysInYear y = (if y mod 4 \<noteq> 0 then 365 else if y mod 100 \<noteq> 0 then 366
                   else if y mod 400 \<noteq> 0 then 365 else 366)"

definition DayFromYear :: "int \<Rightarrow> int" where
  "DayFromYear y = 365 * (y - 1970) + (y - 1969) div 4 - (y - 1901) div 100 + (y - 1601) div 400"

definition YearFromDay :: "int \<Rightarrow> int" where
  "YearFromDay d =
     (let y = 1970 + (d * 400) div 146097 in
      if d < DayFromYear y then y - 1
      else if DayFromYear (y + 1) \<le> d then y + 1
      else y)"

definition YearFromTime :: "int \<Rightarrow> int" where
  "YearFromTime t = YearFromDay (Day t)"

definition InLeapYear :: "int \<Rightarrow> int" where
  "InLeapYear t = (if DaysInYear (YearFromTime t) = 366 then 1 else 0)"

definition DayWithinYear :: "int \<Rightarrow> int" where
  "DayWithinYear t = Day t - DayFromYear (YearFromTime t)"

definition MonthFromTime :: "int \<Rightarrow> int" where
  "MonthFromTime t =
     (let d = DayWithinYear t; l = InLeapYear t in
      if d < 31 then 0 else if d < 59 + l then 1 else if d < 90 + l then 2
      else if d < 120 + l then 3 else if d < 151 + l then 4 else if d < 181 + l then 5
      else if d < 212 + l then 6 else if d < 243 + l then 7 else if d < 273 + l then 8
      else if d < 304 + l then 9 else if d < 334 + l then 10 else 11)"

definition DateFromTime :: "int \<Rightarrow> int" where
  "DateFromTime t =
     (let d = DayWithinYear t; l = InLeapYear t; m = MonthFromTime t in
      if m = 0 then d + 1 else if m = 1 then d - 30 else if m = 2 then d - 58 - l
      else if m = 3 then d - 89 - l else if m = 4 then d - 119 - l else if m = 5 then d - 150 - l
      else if m = 6 then d - 180 - l else if m = 7 then d - 211 - l else if m = 8 then d - 242 - l
      else if m = 9 then d - 272 - l else if m = 10 then d - 303 - l else d - 333 - l)"

definition HourFromTime :: "int \<Rightarrow> int" where
  "HourFromTime t = (t div 3600000) mod 24"

definition MinFromTime :: "int \<Rightarrow> int" where
  "MinFromTime t = (t div 60000) mod 60"

definition SecFromTime :: "int \<Rightarrow> int" where
  "SecFromTime t = (t div 1000) mod 60"

definition msFromTime :: "int \<Rightarrow> int" where
  "msFromTime t = t mod 1000"

definition MakeTime :: "int \<Rightarrow> int \<Rightarrow> int \<Rightarrow> int \<Rightarrow> int" where
  "MakeTime hour minute sec ms = hour * 3600000 + minute * 60000 + sec * 1000 + ms"

text \<open>The day number of the first day of month \<open>mn\<close> (0 to 11) of year \<open>ym\<close>, plus \<open>date - 1\<close>.\<close>

definition MakeDay :: "int \<Rightarrow> int \<Rightarrow> int \<Rightarrow> int" where
  "MakeDay year month date =
     (let ym = year + month div 12; mn = month mod 12;
          l = (if DaysInYear ym = 366 then 1 else 0);
          monthStart = [0, 31, 59 + l, 90 + l, 120 + l, 151 + l, 181 + l, 212 + l,
                        243 + l, 273 + l, 304 + l, 334 + l] ! nat mn
      in DayFromYear ym + monthStart + date - 1)"

definition MakeDate :: "int \<Rightarrow> int \<Rightarrow> int" where
  "MakeDate day time = day * msPerDay + time"

definition TimeClip :: "int \<Rightarrow> int option" where
  "TimeClip t = (if \<bar>t\<bar> > 8640000000000000 then None else Some t)"

definition LocalTime :: "host \<Rightarrow> int \<Rightarrow> int" where
  "LocalTime h t = t + tzMinutes h * 60000"

definition UTC :: "host \<Rightarrow> int \<Rightarrow> int" where
  "UTC h t = t - tzMinutes h * 60000"

text \<open>
  \<open>new Date(v)\<close>: a string is parsed, any other value is converted to a number; a time
  outside the range of time values is \<open>NaN\<close>, a time within is truncated to an integer.
\<close>

definition truncate :: "real \<Rightarrow> int" where
  "truncate x = (if 0 \<le> x then \<lfloor>x\<rfloor> else \<lceil>x\<rceil>)"

definition Date_new :: "host \<Rightarrow> jsval \<Rightarrow> int option" where
  "Date_new h v =
     (case v of
        JString s \<Rightarrow> (case Date_parse h s of None \<Rightarrow> None | Some t \<Rightarrow> TimeClip t)
      | _ \<Rightarrow> (case ToNumber h v of
                NaN \<Rightarrow> None
              | Num x \<Rightarrow> if \<bar>x\<bar> > 8640000000000000 then None else Some (truncate x)))"

definition getMonth :: "host \<Rightarrow> int option \<Rightarrow> int option" where
  "getMonth h tv = (case tv of None \<Rightarrow> None | Some t \<Rightarrow> Some (MonthFromTime (LocalTime h t)))"

text \<open>\<open>setMonth(month)\<close> keeps the local day of the month and the local time of day.\<close>

definition setMonth :: "host \<Rightarrow> int option \<Rightarrow> int option \<Rightarrow> int option" where
  "setMonth h tv month =
     (case tv of None \<Rightarrow> None
      | Some t0 \<Rightarrow>
         (case month of None \<Rightarrow> None
          | Some m \<Rightarrow>
             (let t = LocalTime h t0;
                  newDate = MakeDate (MakeDay (YearFromTime t) m (DateFromTime t)) (TimeWithinDay t)
              in TimeClip (UTC h newDate))))"

definition digitChar :: "int \<Rightarrow> char" where
  "digitChar n = ''0123456789'' ! nat (n mod 10)"

definition pad2 :: "int \<Rightarrow> string" where
  "pad2 n = [digitChar (n div 10), digitChar n]"

definition pad3 :: "int \<Rightarrow> string" where
  "pad3 n = [digitChar (n div 100), digitChar (n div 10), digitChar n]"

definition pad4 :: "int \<Rightarrow> string" where
  "pad4 n = [digitChar (n div 1000), digitChar (n div 100), digitChar (n div 10), digitChar n]"

definition pad6 :: "int \<Rightarrow> string" where
  "pad6 n = pad2 (n div 10000) @ pad4 n"

definition yearString :: "int \<Rightarrow> string" where
  "yearString y = (if 0 \<le> y \<and> y \<le> 9999 then pad4 y
                   else if y < 0 then CHR ''-'' # pad6 (- y) else CHR ''+'' # pad6 y)"

text \<open>\<open>toISOString()\<close> throws a RangeError on an invalid date.\<close>

definition toISOString :: "int option \<Rightarrow> error + string" where
  "toISOString tv =
     (case tv of None \<Rightarrow> Inl RangeError
      | Some t \<Rightarrow> Inr (yearString (YearFromTime t) @ ''-'' @ pad2 (MonthFromTime t + 1) @ ''-''
                      @ pad2 (DateFromTime t) @ ''T'' @ pad2 (HourFromTime t) @ '':''
                      @ pad2 (MinFromTime t) @ '':'' @ pad2 (SecFromTime t) @ ''.''
                      @ pad3 (msFromTime t) @ ''Z''))"

definition formatDate :: "host \<Rightarrow> jsval \<Rightarrow> error + string" where
  "formatDate h isoValue =
     (case toISOString (Date_new h isoValue) of Inl e \<Rightarrow> Inl e | Inr s \<Rightarrow> Inr (take 10 s))"

fun futureLoop :: "host \<Rightarrow> int option \<Rightarrow> nat list \<Rightarrow> error + string list" where
  "futureLoop h lastTime [] = Inr []"
| "futureLoop h lastTime (i # is) =
     (let futureDate = lastTime;
          futureDate = setMonth h futureDate
                         (case getMonth h futureDate of None \<Rightarrow> None | Some m \<Rightarrow> Some (m + int i))
      in case toISOString futureDate of
           Inl e \<Rightarrow> Inl e
         | Inr s \<Rightarrow> (case futureLoop h lastTime is of
                       Inl e \<Rightarrow> Inl e
                     | Inr dates \<Rightarrow> Inr (take 10 s # dates)))"

definition generateFutureDates :: "host \<Rightarrow> jsval \<Rightarrow> nat \<Rightarrow> error + string list" where
  "generateFutureDates h lastDate months = futureLoop h (Date_new h lastDate) [1..<Suc months]"

section \<open>The trend pipeline\<close>

datatype mode = Amount | Ratio

definition amountKeys :: "field list" where
  "amountKeys = [EstimatedPrice, BasePrice, WinningPrice]"

definition ratioKeys :: "field list" where
  "ratioKeys = [BaseToWinning, EstimatedToWinning]"

text \<open>
  The comparator \<open>new Date(a.bidDate) - new Date(b.bidDate)\<close>; \<open>None\<close> is \<open>NaN\<close>, which
  \<open>sort\<close> takes as 0.
\<close>

definition compareBidDate :: "host \<Rightarrow> point \<Rightarrow> point \<Rightarrow> int option" where
  "compareBidDate h a b =
     (case Date_new h (a BidDate) of None \<Rightarrow> None
      | Some ta \<Rightarrow> (case Date_new h (b BidDate) of None \<Rightarrow> None | Some tb \<Rightarrow> Some (ta - tb)))"

text \<open>
  \<open>Array.prototype.sort\<close> is stable: an element stays before the later elements that
  it does not compare greater than. With a comparator that is not consistent the order
  is up to the host; the model then gives the order of this insertion sort.
\<close>

definition sortsAfter :: "int option \<Rightarrow> bool" where
  "sortsAfter v = (case v of None \<Rightarrow> False | Some c \<Rightarrow> 0 < c)"

fun insertSorted :: "('a \<Rightarrow> 'a \<Rightarrow> int option) \<Rightarrow> 'a \<Rightarrow> 'a list \<Rightarrow> 'a list" where
  "insertSorted cmp x [] = [x]"
| "insertSorted cmp x (y # ys) =
     (if sortsAfter (cmp x y) then y # insertSorted cmp x ys else x # y # ys)"

definition Array_sort :: "('a \<Rightarrow> 'a \<Rightarrow> int option) \<Rightarrow> 'a list \<Rightarrow> 'a list" where
  "Array_sort cmp xs = foldr (insertSorted cmp) xs []"

text \<open>
  The filter on the date window; an empty bound is falsy and switches its test off.
  Strings are compared as in JavaScript, character by character by their codes (the
  dates and the bounds of a date input are ASCII).
\<close>

fun filterDates :: "host \<Rightarrow> string \<Rightarrow> string \<Rightarrow> point list \<Rightarrow> error + point list" where
  "filterDates h dateFrom dateTo [] = Inr []"
| "filterDates h dateFrom dateTo (d # ds) =
     (case formatDate h (d BidDate) of
        Inl e \<Rightarrow> Inl e
      | Inr isoDate \<Rightarrow>
         (case filterDates h dateFrom dateTo ds of
            Inl e \<Rightarrow> Inl e
          | Inr rest \<Rightarrow>
              Inr (if dateFrom \<noteq> [] \<and> isoDate < dateFrom then rest
                   else if dateTo \<noteq> [] \<and> isoDate > dateTo then rest
                   else d # rest)))"

definition filteredRecords :: "host \<Rightarrow> point list \<Rightarrow> string \<Rightarrow> string \<Rightarrow> error + point list" where
  "filteredRecords h rawData dateFrom dateTo =
     filterDates h dateFrom dateTo (Array_sort (compareBidDate h) rawData)"

definition ratioPoint :: "host \<Rightarrow> point \<Rightarrow> point" where
  "ratioPoint h d = d(Orig BaseToWinning := toPercent h (d (Orig BaseToWinning)),
                      Orig EstimatedToWinning := toPercent h (d (Orig EstimatedToWinning)))"

text \<open>\<open>processedData.map((d, i) => ({...d, [k]: vals[i]}))\<close>\<close>

definition attach :: "key \<Rightarrow> jsval list \<Rightarrow> point list \<Rightarrow> point list" where
  "attach k vals pd = map (\<lambda>i. (pd ! i)(k := vals ! i)) [0..<length pd]"

record smoothState =
  processedData :: "point list"
  emaByKey :: "field \<rightharpoonup> jsval list"
  loessByKey :: "field \<rightharpoonup> nullable list"

definition smoothKey :: "host \<Rightarrow> bool \<Rightarrow> bool \<Rightarrow> smoothState \<Rightarrow> field \<Rightarrow> smoothState" where
  "smoothKey h showEMA showLOESS st key =
     (let st1 = (if showEMA
                 then (let emaValues = calculateEMA h (processedData st) (Orig key) 10
                       in st\<lparr>emaByKey := (emaByKey st)(key \<mapsto> emaValues),
                             processedData := attach (EMA key) emaValues (processedData st)\<rparr>)
                 else st)
      in if showLOESS
         then (let loessValues = calculateLOESS h (processedData st1) (Orig key) (3 / 10)
               in st1\<lparr>loessByKey := (loessByKey st1)(key \<mapsto> loessValues),
                      processedData := attach (LOESS key) (map ofNullable loessValues) (processedData st1)\<rparr>)
         else st1)"

definition lastElement :: "jsval list \<Rightarrow> jsval" where
  "lastElement xs = (if xs = [] then JUndefined else last xs)"

definition futureKey :: "bool \<Rightarrow> bool \<Rightarrow> smoothState \<Rightarrow> nat \<Rightarrow> point \<Rightarrow> field \<Rightarrow> point" where
  "futureKey showEMA showLOESS st idx futurePoint key =
     (let p1 = (case emaByKey st key of
                  Some emaValues \<Rightarrow>
                    (if showEMA
                     then (let lastEMA = lastElement emaValues;
                               predictions = predictEMA lastEMA 3
                           in futurePoint(EMA key := predictions ! idx))
                     else futurePoint)
                | None \<Rightarrow> futurePoint)
      in case loessByKey st key of
           Some loessValues \<Rightarrow>
             (if showLOESS
              then (let predictions = predictLOESS loessValues 3
                    in p1(LOESS key := ofNullable (predictions ! idx)))
              else p1)
         | None \<Rightarrow> p1)"

definition emptyFuturePoint :: "string \<Rightarrow> point" where
  "emptyFuturePoint futureDate =
     (\<lambda>k. JUndefined)(BidDate := JString futureDate,
        Orig EstimatedPrice := JNull, Orig BasePrice := JNull, Orig WinningPrice := JNull,
        Orig BaseToWinning := JNull, Orig EstimatedToWinning := JNull)"

definition futurePoints ::
  "bool \<Rightarrow> bool \<Rightarrow> field list \<Rightarrow> smoothState \<Rightarrow> string list \<Rightarrow> point list" where
  "futurePoints showEMA showLOESS keysToProcess st futureDates =
     map (\<lambda>idx. foldl (futureKey showEMA showLOESS st idx)
                       (emptyFuturePoint (futureDates ! idx)) keysToProcess)
         [0..<length futureDates]"

definition trendData ::
  "host \<Rightarrow> point list \<Rightarrow> string \<Rightarrow> string \<Rightarrow> mode \<Rightarrow> bool \<Rightarrow> bool \<Rightarrow> error + point list" where
  "trendData h rawData dateFrom dateTo md showEMA showLOESS =
     (case filteredRecords h rawData dateFrom dateTo of
        Inl e \<Rightarrow> Inl e
      | Inr filtered \<Rightarrow>
         (let processed = (if md = Amount then filtered else map (ratioPoint h) filtered);
              keysToProcess = (if md = Amount then amountKeys else ratioKeys);
              st = foldl (smoothKey h showEMA showLOESS)
                         \<lparr>processedData = processed, emaByKey = Map.empty, loessByKey = Map.empty\<rparr>
                         keysToProcess
          in if (showEMA \<or> showLOESS) \<and> processedData st \<noteq> []
             then (let lastDate = (last (processedData st)) BidDate
                   in case generateFutureDates h lastDate 3 of
                        Inl e \<Rightarrow> Inl e
                      | Inr futureDates \<Rightarrow>
                          Inr (processedData st
                               @ futurePoints showEMA showLOESS keysToProcess st futureDates))
             else Inr (processedData st)))"

section \<open>The pipeline on the store\<close>

text \<open>
  The arrays of records and the records themselves are objects of the JavaScript heap:
  an array holds references to its records, and two arrays can hold the same record.
  The store maps a reference to the object or to the array it names; a new object or
  array takes the next free reference. The arrays of numbers, dates and keys that the
  pipeline builds for itself (the EMA and LOESS series, the future dates, the
  predictions) hold no reference and stay lists.
\<close>

type_synonym ref = nat

record store =
  objects :: "ref \<Rightarrow> point"
  arrays :: "ref \<Rightarrow> ref list"
  nextRef :: ref

definition newObject :: "point \<Rightarrow> store \<Rightarrow> ref \<times> store" where
  "newObject p s = (nextRef s, s\<lparr>objects := (objects s)(nextRef s := p), nextRef := Suc (nextRef s)\<rparr>)"

definition newArray :: "ref list \<Rightarrow> store \<Rightarrow> ref \<times> store" where
  "newArray xs s = (nextRef s, s\<lparr>arrays := (arrays s)(nextRef s := xs), nextRef := Suc (nextRef s)\<rparr>)"

definition setProperty :: "ref \<Rightarrow> key \<Rightarrow> jsval \<Rightarrow> store \<Rightarrow> store" where
  "setProperty obj k v s = s\<lparr>objects := (objects s)(obj := (objects s obj)(k := v))\<rparr>"

definition push :: "ref \<Rightarrow> ref \<Rightarrow> store \<Rightarrow> store" where
  "push a obj s = s\<lparr>arrays := (arrays s)(a := arrays s a @ [obj])\<rparr>"

text \<open>The records that an array holds, in order.\<close>

definition deref :: "store \<Rightarrow> ref \<Rightarrow> point list" where
  "deref s a = map (objects s) (arrays s a)"

text \<open>\<open>[...a]\<close> is a new array with the elements of \<open>a\<close>; \<open>a.sort(cmp)\<close> sorts \<open>a\<close> itself.\<close>

definition spread :: "ref \<Rightarrow> store \<Rightarrow> ref \<times> store" where
  "spread a s = newArray (arrays s a) s"

definition sortByBidDate :: "host \<Rightarrow> ref \<Rightarrow> store \<Rightarrow> store" where
  "sortByBidDate h a s =
     s\<lparr>arrays := (arrays s)(a := Array_sort (\<lambda>x y. compareBidDate h (objects s x) (objects s y))
                                          (arrays s a))\<rparr>"

text \<open>\<open>a.filter(p)\<close> is a new array with the elements of \<open>a\<close> that pass.\<close>

fun filterRefs :: "host \<Rightarrow> store \<Rightarrow> string \<Rightarrow> string \<Rightarrow> ref list \<Rightarrow> error + ref list" where
  "filterRefs h s dateFrom dateTo [] = Inr []"
| "filterRefs h s dateFrom dateTo (d # ds) =
     (case formatDate h (objects s d BidDate) of
        Inl e \<Rightarrow> Inl e
      | Inr isoDate \<Rightarrow>
         (case filterRefs h s dateFrom dateTo ds of
            Inl e \<Rightarrow> Inl e
          | Inr rest \<Rightarrow>
              Inr (if dateFrom \<noteq> [] \<and> isoDate < dateFrom then rest
                   else if dateTo \<noteq> [] \<and> isoDate > dateTo then rest
                   else d # rest)))"

definition filterByDate :: "host \<Rightarrow> string \<Rightarrow> string \<Rightarrow> ref \<Rightarrow> store \<Rightarrow> error + ref \<times> store" where
  "filterByDate h dateFrom dateTo a s =
     (case filterRefs h s dateFrom dateTo (arrays s a) of
        Inl e \<Rightarrow> Inl e
      | Inr kept \<Rightarrow> Inr (newArray kept s))"

text \<open>
  \<open>a.map((d, i) => ({...d, ...}))\<close> is a new array of new objects, one for every element
  of \<open>a\<close>.
\<close>

fun newObjects :: "point list \<Rightarrow> store \<Rightarrow> ref list \<times> store" where
  "newObjects [] s = ([], s)"
| "newObjects (p # ps) s =
     (let (obj, s1) = newObject p s; (objs, s2) = newObjects ps s1 in (obj # objs, s2))"

definition mapObjects :: "(point \<Rightarrow> nat \<Rightarrow> point) \<Rightarrow> ref \<Rightarrow> store \<Rightarrow> ref \<times> store" where
  "mapObjects f a s =
     (let elems = arrays s a;
          (objs, s1) = newObjects (map (\<lambda>i. f (objects s (elems ! i)) i) [0..<length elems]) s
      in newArray objs s1)"

text \<open>
  The loop over the keys keeps the reference of \<open>processedData\<close>, the two tables of series
  and the store.
\<close>

record smoothRun =
  dataRef :: ref
  emaArrays :: "field \<rightharpoonup> jsval list"
  loessArrays :: "field \<rightharpoonup> nullable list"
  heap :: store

definition emaStageS :: "host \<Rightarrow> smoothRun \<Rightarrow> field \<Rightarrow> smoothRun" where
  "emaStageS h r key =
     (let emaValues = calculateEMA h (deref (heap r) (dataRef r)) (Orig key) 10;
          (a, s) = mapObjects (\<lambda>d i. d(EMA key := emaValues ! i)) (dataRef r) (heap r)
      in r\<lparr>emaArrays := (emaArrays r)(key \<mapsto> emaValues), dataRef := a, heap := s\<rparr>)"

definition loessStageS :: "host \<Rightarrow> smoothRun \<Rightarrow> field \<Rightarrow> smoothRun" where
  "loessStageS h r key =
     (let loessValues = calculateLOESS h (deref (heap r) (dataRef r)) (Orig key) (3 / 10);
          (a, s) = mapObjects (\<lambda>d i. d(LOESS key := map ofNullable loessValues ! i))
                     (dataRef r) (heap r)
      in r\<lparr>loessArrays := (loessArrays r)(key \<mapsto> loessValues), dataRef := a, heap := s\<rparr>)"

definition smoothKeyS :: "host \<Rightarrow> bool \<Rightarrow> bool \<Rightarrow> smoothRun \<Rightarrow> field \<Rightarrow> smoothRun" where
  "smoothKeyS h showEMA showLOESS r key =
     (let r1 = (if showEMA then emaStageS h r key else r)
      in if showLOESS then loessStageS h r1 key else r1)"

text \<open>
  A future point is a new object; its forecast properties are written into it, and it
  is pushed onto \<open>processedData\<close>.
\<close>

definition futureKeyS :: "bool \<Rightarrow> bool \<Rightarrow> smoothRun \<Rightarrow> nat \<Rightarrow> ref \<Rightarrow> store \<Rightarrow> field \<Rightarrow> store" where
  "futureKeyS showEMA showLOESS r idx futurePoint s key =
     (let s1 = (case emaArrays r key of
                  Some emaValues \<Rightarrow>
                    (if showEMA
                     then (let lastEMA = lastElement emaValues;
                               predictions = predictEMA lastEMA 3
                           in setProperty futurePoint (EMA key) (predictions ! idx) s)
                     else s)
                | None \<Rightarrow> s)
      in case loessArrays r key of
           Some loessValues \<Rightarrow>
             (if showLOESS
              then (let predictions = predictLOESS loessValues 3
                    in setProperty futurePoint (LOESS key) (ofNullable (predictions ! idx)) s1)
              else s1)
         | None \<Rightarrow> s1)"

definition futurePointS ::
  "bool \<Rightarrow> bool \<Rightarrow> field list \<Rightarrow> smoothRun \<Rightarrow> string list \<Rightarrow> store \<Rightarrow> nat \<Rightarrow> store" where
  "futurePointS showEMA showLOESS keysToProcess r futureDates s idx =
     (let (futurePoint, s1) = newObject (emptyFuturePoint (futureDates ! idx)) s;
          s2 = foldl (futureKeyS showEMA showLOESS r idx futurePoint) s1 keysToProcess
      in push (dataRef r) futurePoint s2)"

definition trendDataS ::
  "host \<Rightarrow> ref \<Rightarrow> string \<Rightarrow> string \<Rightarrow> mode \<Rightarrow> bool \<Rightarrow> bool \<Rightarrow> store \<Rightarrow> (error + ref) \<times> store" where
  "trendDataS h rawData dateFrom dateTo md showEMA showLOESS s =
     (let (sorted, s1) = spread rawData s;
          s2 = sortByBidDate h sorted s1
      in case filterByDate h dateFrom dateTo sorted s2 of
           Inl e \<Rightarrow> (Inl e, s2)
         | Inr (filtered, s3) \<Rightarrow>
            (let (processed, s4) = (if md = Amount then (filtered, s3)
                                    else mapObjects (\<lambda>d i. ratioPoint h d) filtered s3);
                 keysToProcess = (if md = Amount then amountKeys else ratioKeys);
                 r = foldl (smoothKeyS h showEMA showLOESS)
                       \<lparr>dataRef = processed, emaArrays = Map.empty, loessArrays = Map.empty, heap = s4\<rparr>
                       keysToProcess
             in if (showEMA \<or> showLOESS) \<and> arrays (heap r) (dataRef r) \<noteq> []
                then (let lastDate = objects (heap r) (last (arrays (heap r) (dataRef r))) BidDate
                      in case generateFutureDates h lastDate 3 of
                           Inl e \<Rightarrow> (Inl e, heap r)
                         | Inr futureDates \<Rightarrow>
                             (Inr (dataRef r),
                              foldl (futurePointS showEMA showLOESS keysToProcess r futureDates)
                                    (heap r) [0..<length futureDates]))
                else (Inr (dataRef r), heap r)))"

section \<open>The records of the bid API\<close>

text \<open>
  The record of the bid API as \<open>mapBidToTrendItem\<close> builds it: the date is taken as it
  is, every other property is \<open>null\<close> when it is missing.
\<close>

record bid =
  bid_date :: jsval
  estimated_price :: jsval
  base_price :: jsval
  winning_price :: jsval
  base_winning_rate :: jsval
  estimated_winning_rate :: jsval

definition orNull :: "jsval \<Rightarrow> jsval" where
  "orNull v = (if looseNull v then JNull else v)"

definition mapBidToTrendItem :: "bid \<Rightarrow> point" where
  "mapBidToTrendItem b =
     (\<lambda>k. JUndefined)(BidDate := bid_date b,
        Orig EstimatedPrice := orNull (estimated_price b),
        Orig BasePrice := orNull (base_price b),
        Orig WinningPrice := orNull (winning_price b),
        Orig BaseToWinning := orNull (base_winning_rate b),
        Orig EstimatedToWinning := orNull (estimated_winning_rate b))"

section \<open>A host for the examples\<close>

text \<open>
  The examples run on a host in the time zone of Seoul (UTC+9). Of \<open>Date.parse\<close> they
  need the date-only form \<open>YYYY-MM-DD\<close>, which is midnight UTC of that day, and the
  form \<open>YYYY-MM-DDTHH:mm:ss\<close>, which is local time; of \<open>Number(s)\<close> they need strings of
  decimal digits. The example host answers \<open>NaN\<close> on every other string.
\<close>

definition digitVal :: "char \<Rightarrow> int option" where
  "digitVal c = map_of (zip ''0123456789'' [0, 1, 2, 3, 4, 5, 6, 7, 8, 9]) c"

fun digitsVal :: "int \<Rightarrow> string \<Rightarrow> int option" where
  "digitsVal acc [] = Some acc"
| "digitsVal acc (c # cs) =
     (case digitVal c of None \<Rightarrow> None | Some d \<Rightarrow> digitsVal (acc * 10 + d) cs)"

definition parseDatePart :: "string \<Rightarrow> int option" where
  "parseDatePart s =
     (if length s = 10 \<and> s ! 4 = CHR ''-'' \<and> s ! 7 = CHR ''-''
      then (case (digitsVal 0 (take 4 s), digitsVal 0 (take 2 (drop 5 s)), digitsVal 0 (drop 8 s)) of
              (Some y, Some m, Some d) \<Rightarrow>
                (if 1 \<le> m \<and> m \<le> 12 \<and> 1 \<le> d \<and> d \<le> 31 then Some (MakeDay y (m - 1) d) else None)
            | _ \<Rightarrow> None)
      else None)"

definition parseTimePart :: "string \<Rightarrow> int option" where
  "parseTimePart s =
     (if length s = 8 \<and> s ! 2 = CHR '':'' \<and> s ! 5 = CHR '':''
      then (case (digitsVal 0 (take 2 s), digitsVal 0 (take 2 (drop 3 s)), digitsVal 0 (drop 6 s)) of
              (Some hh, Some mm, Some ss) \<Rightarrow>
                (if hh \<le> 23 \<and> mm \<le> 59 \<and> ss \<le> 59 then Some (MakeTime hh mm ss 0) else None)
            | _ \<Rightarrow> None)
      else None)"

definition exampleDateParse :: "int \<Rightarrow> string \<Rightarrow> int option" where
  "exampleDateParse tz s =
     (if length s = 10 then (case parseDatePart s of None \<Rightarrow> None | Some day \<Rightarrow> Some (MakeDate day 0))
      else if length s = 19 \<and> s ! 10 = CHR ''T''
      then (case (parseDatePart (take 10 s), parseTimePart (drop 11 s)) of
              (Some day, Some time) \<Rightarrow> Some (MakeDate day time - tz * 60000)
            | _ \<Rightarrow> None)
      else None)"

definition exampleStringToNumber :: "string \<Rightarrow> number" where
  "exampleStringToNumber s =
     (if s = [] then Num 0
      else case digitsVal 0 s of None \<Rightarrow> NaN | Some n \<Rightarrow> Num (real_of_int n))"

definition seoulHost :: host where
  "seoulHost = \<lparr>tzMinutes = 540, StringToNumber = exampleStringToNumber,
                 Date_parse = exampleDateParse 540\<rparr>"

definition utcHost :: host where
  "utcHost = \<lparr>tzMinutes = 0, StringToNumber = exampleStringToNumber,
               Date_parse = exampleDateParse 0\<rparr>"

text \<open>A record that carries a date and a winning amount only.\<close>

definition winningBid :: "string \<Rightarrow> jsval \<Rightarrow> point" where
  "winningBid date v =
     mapBidToTrendItem \<lparr>bid_date = JString date, estimated_price = JUndefined,
       base_price = JUndefined, winning_price = v, base_winning_rate = JUndefined,
       estimated_winning_rate = JUndefined\<rparr>"

definition gapSeries :: "point list" where
  "gapSeries = [winningBid ''2024-01-01'' (JNumber (Num 10)),
                winningBid ''2024-01-02'' JNull,
                winningBid ''2024-01-03'' (JNumber (Num 20))]"

definition mixedSeries :: "point list" where
  "mixedSeries = [winningBid ''2024-01-01'' (JNumber (Num 100)),
                  winningBid ''2024-01-02'' (JString ''110''),
                  winningBid ''2024-01-03'' (JNumber NaN),
                  winningBid ''2024-01-04'' JUndefined,
                  winningBid ''2024-01-05'' (JNumber (Num 120)),
                  winningBid ''2024-01-06'' (JNumber (Num 110))]"

definition unparseable :: "point list" where
  "unparseable = [winningBid ''2024-01-05'' (JNumber (Num 100)), winningBid ''soon'' (JNumber (Num 110))]"

definition windowSeries :: "point list" where
  "windowSeries = [winningBid ''2024-01-15T03:00:00'' (JNumber (Num 1)),
                   winningBid ''2024-01-14'' (JNumber (Num 2)),
                   winningBid ''2024-01-16'' (JNumber (Num 3)),
                   winningBid ''2024-01-13'' (JNumber (Num 4))]"

definition nullTail :: "point list" where
  "nullTail = [winningBid ''2024-01-01'' (JNumber (Num 100)), winningBid ''2024-01-02'' JNull]"

text \<open>A store with three records and the array \<open>rawData\<close>, at reference 3, not in date order.\<close>

definition shuffledStore :: store where
  "shuffledStore =
     \<lparr>objects = (\<lambda>a. (\<lambda>k. JUndefined))
                  (0 := winningBid ''2024-01-03'' (JNumber (Num 20)),
                   1 := winningBid ''2024-01-01'' (JNumber (Num 10)),
                   2 := winningBid ''2024-01-02'' JNull),
       arrays = (\<lambda>a. [])(3 := [0, 1, 2]),
       nextRef = 4\<rparr>"

section \<open>Notions used in the statements\<close>

text \<open>
  A value takes part in smoothing when neither \<open>v == null\<close> nor \<open>isNaN(v)\<close> holds;
  \<open>numOf\<close> is then the number it converts to.
\<close>

definition validValue :: "host \<Rightarrow> jsval \<Rightarrow> bool" where
  "validValue h v = (\<not> (looseNull v \<or> isNaN h v))"

definition numOf :: "host \<Rightarrow> jsval \<Rightarrow> real" where
  "numOf h v = (case ToNumber h v of NaN \<Rightarrow> 0 | Num x \<Rightarrow> x)"

text \<open>
  A record is in the date window when its ISO date is not before a bound \<open>dateFrom\<close> that
  is set and not after a bound \<open>dateTo\<close> that is set.
\<close>

definition inWindow :: "host \<Rightarrow> string \<Rightarrow> string \<Rightarrow> point \<Rightarrow> bool" where
  "inWindow h dateFrom dateTo d =
     (case formatDate h (d BidDate) of
        Inl e \<Rightarrow> False
      | Inr isoDate \<Rightarrow> (dateFrom = [] \<or> dateFrom \<le> isoDate) \<and> (dateTo = [] \<or> isoDate \<le> dateTo))"

text \<open>
  An array is in the store when its reference and the references of its elements are in
  use; \<open>frame n\<close> relates two stores that agree on every object and array below \<open>n\<close>.
\<close>

definition inStore :: "store \<Rightarrow> ref \<Rightarrow> bool" where
  "inStore s a = (a < nextRef s \<and> (\<forall>x\<in>set (arrays s a). x < nextRef s))"

definition frame :: "ref \<Rightarrow> store \<Rightarrow> store \<Rightarrow> bool" where
  "frame n s s' = (nextRef s \<le> nextRef s'
                   \<and> (\<forall>a<n. objects s' a = objects s a \<and> arrays s' a = arrays s a))"

text \<open>
  The state of the loop over the keys as the function \<open>smoothKey\<close> sees it, the two halves
  of \<open>smoothKey\<close>, and what a step of the loop keeps.
\<close>

definition absRun :: "smoothRun \<Rightarrow> smoothState" where
  "absRun r = \<lparr>processedData = deref (heap r) (dataRef r), emaByKey = emaArrays r,
               loessByKey = loessArrays r\<rparr>"

definition emaStage :: "host \<Rightarrow> smoothState \<Rightarrow> field \<Rightarrow> smoothState" where
  "emaStage h st key =
     (let emaValues = calculateEMA h (processedData st) (Orig key) 10
      in st\<lparr>emaByKey := (emaByKey st)(key \<mapsto> emaValues),
            processedData := attach (EMA key) emaValues (processedData st)\<rparr>)"

definition loessStage :: "host \<Rightarrow> smoothState \<Rightarrow> field \<Rightarrow> smoothState" where
  "loessStage h st key =
     (let loessValues = calculateLOESS h (processedData st) (Orig key) (3 / 10)
      in st\<lparr>loessByKey := (loessByKey st)(key \<mapsto> loessValues),
            processedData := attach (LOESS key) (map ofNullable loessValues) (processedData st)\<rparr>)"

definition runOk :: "smoothRun \<Rightarrow> smoothRun \<Rightarrow> bool" where
  "runOk r r' = (inStore (heap r') (dataRef r') \<and> frame (nextRef (heap r)) (heap r) (heap r')
                 \<and> dataRef r \<le> dataRef r')"

text \<open>
  The values of one property along a series; the properties of a record that smoothing
  does not write.
\<close>

definition column :: "key \<Rightarrow> point list \<Rightarrow> jsval list" where
  "column k pd = map (\<lambda>d. d k) pd"

definition baseKey :: "key \<Rightarrow> bool" where
  "baseKey k = (case k of BidDate \<Rightarrow> True | Orig f \<Rightarrow> True | _ \<Rightarrow> False)"

text \<open>The length of a month (0 to 11) of a year, and the date string \<open>YYYY-MM-DD\<close>.\<close>

definition DaysInMonth :: "int \<Rightarrow> int \<Rightarrow> int" where
  "DaysInMonth y m =
     (let l = (if DaysInYear y = 366 then 1 else 0)
      in [31, 28 + l, 31, 30, 31, 30, 31, 31, 30, 31, 30, 31] ! nat m)"

definition isoDateString :: "int \<Rightarrow> int \<Rightarrow> int \<Rightarrow> string" where
  "isoDateString y m d = pad4 y @ ''-'' @ pad2 (m + 1) @ ''-'' @ pad2 d"

text \<open>The update \<open>alpha * value + (1 - alpha) * ema\<close> of the running average.\<close>

definition blend :: "host \<Rightarrow> real \<Rightarrow> jsval \<Rightarrow> jsval \<Rightarrow> jsval" where
  "blend h a e v = JNumber (nadd (nmul (Num a) (ToNumber h v)) (nmul (Num (1 - a)) (ToNumber h e)))"

section \<open>Facts about the example records\<close>

lemma winningBid_simps:
  "winningBid date v (Orig WinningPrice) = orNull v"
  "winningBid date v BidDate = JString date"
  by (simp_all add: winningBid_def mapBidToTrendItem_def)

lemma blend_num:
  assumes "ToNumber h v = Num x" "ToNumber h e = Num y"
  shows "blend h a e v = JNumber (Num (a * x + (1 - a) * y))"
  using assms by (simp add: blend_def)

lemma numOf_Num: "ToNumber h v = Num x \<Longrightarrow> numOf h v = x"
  by (simp add: numOf_def)

lemma gap_valid:
  "validValue seoulHost ((gapSeries ! 0) (Orig WinningPrice))"
  "\<not> validValue seoulHost ((gapSeries ! 1) (Orig WinningPrice))"
  "validValue seoulHost ((gapSeries ! 2) (Orig WinningPrice))"
  by (simp_all add: gapSeries_def winningBid_simps orNull_def validValue_def isNaN_def)

lemma gap_window:
  "{j. j < 3 \<and> validValue seoulHost ((gapSeries ! j) (Orig WinningPrice))} = {0, 2}"
proof -
  have "j < 3 \<longleftrightarrow> j = 0 \<or> j = 1 \<or> j = 2" for j :: nat by auto
  then show ?thesis using gap_valid by auto
qed

section \<open>Series statistics\<close>

lemma validNumbers_filter:
  "map (\<lambda>x. JNumber (Num x)) (validNumbers vs) = filter (\<lambda>v. typeof_number v \<and> \<not> Number_isNaN v) vs"
  unfolding validNumbers_def Number_isNaN_def
  by (induction vs) (auto split: jsval.splits number.splits)

lemma foldl_add_sum: "foldl (+) a (vs::real list) = a + sum_list vs"
  by (induction vs arbitrary: a) auto

lemma foldl_min_Min: "foldl min (a::real) vs = Min (set (a # vs))"
proof (induction vs arbitrary: a)
  case Nil then show ?case by simp
next
  case (Cons v vs)
  have "foldl min a (v # vs) = Min (set (min a v # vs))" using Cons by simp
  also have "\<dots> = Min (set (a # v # vs))"
    by (cases "vs = []") (auto simp: Min_insert min.assoc min.commute min.left_commute)
  finally show ?case .
qed

lemma foldl_max_Max: "foldl max (a::real) vs = Max (set (a # vs))"
proof (induction vs arbitrary: a)
  case Nil then show ?case by simp
next
  case (Cons v vs)
  have "foldl max a (v # vs) = Max (set (max a v # vs))" using Cons by simp
  also have "\<dots> = Max (set (a # v # vs))"
    by (cases "vs = []") (auto simp: Max_insert max.assoc max.commute max.left_commute)
  finally show ?case .
qed

lemma statsOf_nonempty:
  "vs \<noteq> [] \<Longrightarrow> statsOf vs = \<lparr>stat_avg = Some (sum_list vs / real (length vs)),
      stat_min = Some (Min (set vs)), stat_max = Some (Max (set vs))\<rparr>"
  by (cases vs) (simp_all add: foldl_add_sum foldl_min_Min foldl_max_Max del: set_simps List.set_simps)

lemma computeStats_foldl:
  "foldl (\<lambda>stats key. stats(key \<mapsto> f key)) m keys k = (if k \<in> set keys then Some (f k) else m k)"
  by (induction keys arbitrary: m) auto

lemma computeStats_lookup:
  "computeStats data keys k = (if k \<in> set keys then Some (statsOf (validNumbers (map (\<lambda>d. d k) data))) else None)"
  unfolding computeStats_def by (simp add: computeStats_foldl)

text \<open>
  C8: for every field asked for, \<open>computeStats\<close> keeps exactly the values that are
  numbers and not \<open>NaN\<close> (\<open>null\<close>, \<open>undefined\<close>, strings and \<open>NaN\<close> are dropped,
  nothing is converted); the entry of the field is the arithmetic mean, the least and
  the greatest of the kept values, and \<open>{avg: null, min: null, max: null}\<close> when none is
  kept. On the empty data set every field asked for gets the three \<open>null\<close>s. The function
  has no failing branch.
\<close>

theorem computeStats_valid_values:
  assumes "key \<in> set keys"
  shows "(let column = map (\<lambda>d. d key) data; values = validNumbers column in
            map (\<lambda>x. JNumber (Num x)) values
              = filter (\<lambda>v. typeof_number v \<and> \<not> Number_isNaN v) column
          \<and> computeStats data keys key =
              Some (if values = [] then \<lparr>stat_avg = None, stat_min = None, stat_max = None\<rparr>
                    else \<lparr>stat_avg = Some (sum_list values / real (length values)),
                          stat_min = Some (Min (set values)), stat_max = Some (Max (set values))\<rparr>))
         \<and> computeStats [] keys key = Some \<lparr>stat_avg = None, stat_min = None, stat_max = None\<rparr>"
proof -
  have e: "validNumbers [] = []" by (simp add: validNumbers_def)
  have "computeStats [] keys key = Some \<lparr>stat_avg = None, stat_min = None, stat_max = None\<rparr>"
    using assms by (simp add: computeStats_lookup e)
  moreover have "computeStats data keys key = Some (statsOf (validNumbers (map (\<lambda>d. d key) data)))"
    using assms by (simp add: computeStats_lookup)
  moreover have "statsOf vs = (if vs = [] then \<lparr>stat_avg = None, stat_min = None, stat_max = None\<rparr>
                    else \<lparr>stat_avg = Some (sum_list vs / real (length vs)),
                          stat_min = Some (Min (set vs)), stat_max = Some (Max (set vs))\<rparr>)" for vs
    using statsOf_nonempty[of vs] by (cases "vs = []") simp_all
  ultimately show ?thesis
    unfolding Let_def using validNumbers_filter by (simp only: simp_thms)
qed

theorem computeStats_valid_values_witness:
  "Orig WinningPrice \<in> set [Orig BasePrice, Orig WinningPrice]
   \<and> computeStats mixedSeries [Orig BasePrice, Orig WinningPrice] (Orig WinningPrice)
       = Some \<lparr>stat_avg = Some 110, stat_min = Some 100, stat_max = Some 120\<rparr>
   \<and> computeStats mixedSeries [Orig BasePrice, Orig WinningPrice] (Orig BasePrice)
       = Some \<lparr>stat_avg = None, stat_min = None, stat_max = None\<rparr>"
proof -
  have m: "Orig WinningPrice \<in> set [Orig BasePrice, Orig WinningPrice]"
    and m': "Orig BasePrice \<in> set [Orig BasePrice, Orig WinningPrice]" by simp_all
  have v: "validNumbers (map (\<lambda>d. d (Orig WinningPrice)) mixedSeries) = [100, 120, 110]"
    by (simp add: mixedSeries_def winningBid_simps orNull_def validNumbers_def)
  have v': "validNumbers (map (\<lambda>d. d (Orig BasePrice)) mixedSeries) = []"
    by (simp add: mixedSeries_def winningBid_def mapBidToTrendItem_def orNull_def validNumbers_def)
  from computeStats_valid_values[OF m, of mixedSeries] v
  have a: "computeStats mixedSeries [Orig BasePrice, Orig WinningPrice] (Orig WinningPrice)
       = Some \<lparr>stat_avg = Some 110, stat_min = Some 100, stat_max = Some 120\<rparr>"
    by (simp add: Let_def)
  from computeStats_valid_values[OF m', of mixedSeries] v'
  have b: "computeStats mixedSeries [Orig BasePrice, Orig WinningPrice] (Orig BasePrice)
       = Some \<lparr>stat_avg = None, stat_min = None, stat_max = None\<rparr>"
    by (simp add: Let_def)
  from m a b show ?thesis by blast
qed

section \<open>The EMA smoother\<close>

lemma emaLoop_length: "length (emaLoop h a k e ds) = length ds"
  by (induction ds arbitrary: e) (auto simp: Let_def)

lemma emaLoop_invalid:
  "i < length ds \<Longrightarrow> \<not> validValue h ((ds ! i) k) \<Longrightarrow> emaLoop h a k e ds ! i = JNull"
proof (induction ds arbitrary: i e)
  case Nil then show ?case by simp
next
  case (Cons d ds)
  show ?case
  proof (cases i)
    case 0
    with Cons.prems show ?thesis by (simp add: validValue_def)
  next
    case (Suc m)
    with Cons show ?thesis by (simp add: Let_def)
  qed
qed

lemma emaLoop_first:
  "i < length ds \<Longrightarrow> validValue h ((ds ! i) k) \<Longrightarrow> \<forall>j<i. \<not> validValue h ((ds ! j) k) \<Longrightarrow>
   emaLoop h a k e ds ! i = (if e = JNull then (ds ! i) k else blend h a e ((ds ! i) k))"
proof (induction ds arbitrary: i)
  case Nil then show ?case by simp
next
  case (Cons d ds)
  show ?case
  proof (cases i)
    case 0
    with Cons.prems show ?thesis by (simp add: validValue_def blend_def Let_def)
  next
    case (Suc m)
    from Cons.prems Suc have d: "\<not> validValue h (d k)" by auto
    from Cons.prems Suc have m: "m < length ds" "validValue h ((ds ! m) k)"
      "\<forall>j<m. \<not> validValue h ((ds ! j) k)" by auto
    from d have "emaLoop h a k e (d # ds) = JNull # emaLoop h a k e ds"
      by (simp add: validValue_def)
    with Cons.IH[OF m] Suc show ?thesis by simp
  qed
qed

lemma validValue_not_null: "validValue h v \<Longrightarrow> v \<noteq> JNull"
  by (auto simp: validValue_def)

lemma emaLoop_next:
  "j < i \<Longrightarrow> i < length ds \<Longrightarrow> validValue h ((ds ! j) k) \<Longrightarrow> validValue h ((ds ! i) k) \<Longrightarrow>
   \<forall>m. j < m \<and> m < i \<longrightarrow> \<not> validValue h ((ds ! m) k) \<Longrightarrow>
   emaLoop h a k e ds ! i = blend h a (emaLoop h a k e ds ! j) ((ds ! i) k)"
proof (induction ds arbitrary: i j e)
  case Nil then show ?case by simp
next
  case (Cons d ds)
  from Cons.prems obtain i' where i: "i = Suc i'" by (cases i) auto
  show ?case
  proof (cases j)
    case 0
    with Cons.prems have d: "validValue h (d k)" by simp
    define e' where "e' = (if e = JNull then d k else blend h a e (d k))"
    have e'nn: "e' \<noteq> JNull" using d by (auto simp: e'_def blend_def validValue_not_null)
    have eq: "emaLoop h a k e (d # ds) = e' # emaLoop h a k e' ds"
      using d by (simp add: validValue_def e'_def blend_def Let_def)
    have "i' < length ds" "validValue h ((ds ! i') k)" "\<forall>m<i'. \<not> validValue h ((ds ! m) k)"
      using Cons.prems i 0 by auto
    from emaLoop_first[OF this, of a e'] e'nn eq i 0 show ?thesis by simp
  next
    case (Suc j')
    have p: "j' < i'" "i' < length ds" "validValue h ((ds ! j') k)" "validValue h ((ds ! i') k)"
      "\<forall>m. j' < m \<and> m < i' \<longrightarrow> \<not> validValue h ((ds ! m) k)"
      using Cons.prems i Suc by auto
    show ?thesis
    proof (cases "validValue h (d k)")
      case True
      then show ?thesis using Cons.IH[OF p] i Suc by (simp add: validValue_def Let_def)
    next
      case False
      then show ?thesis using Cons.IH[OF p] i Suc by (simp add: validValue_def Let_def)
    qed
  qed
qed

lemma valid_num: "validValue h v \<Longrightarrow> \<exists>x. ToNumber h v = Num x"
  by (cases "ToNumber h v") (auto simp: validValue_def isNaN_def)

lemma emaLoop_numeric:
  "e = JNull \<or> (\<exists>x. ToNumber h e = Num x) \<Longrightarrow> i < length ds \<Longrightarrow> validValue h ((ds ! i) k) \<Longrightarrow>
   \<exists>x. ToNumber h (emaLoop h a k e ds ! i) = Num x"
proof (induction ds arbitrary: i e)
  case Nil then show ?case by simp
next
  case (Cons d ds)
  show ?case
  proof (cases "validValue h (d k)")
    case False
    with Cons.prems obtain i' where i: "i = Suc i'" by (cases i) auto
    from False have "emaLoop h a k e (d # ds) = JNull # emaLoop h a k e ds"
      by (simp add: validValue_def)
    with Cons.IH[of e i'] Cons.prems i show ?thesis by simp
  next
    case True
    define e' where "e' = (if e = JNull then d k else blend h a e (d k))"
    have eq: "emaLoop h a k e (d # ds) = e' # emaLoop h a k e' ds"
      using True by (simp add: validValue_def e'_def blend_def Let_def)
    obtain x where x: "ToNumber h (d k) = Num x" using valid_num[OF True] by auto
    have e'num: "\<exists>y. ToNumber h e' = Num y"
      using Cons.prems(1) x by (auto simp: e'_def blend_def)
    show ?thesis
    proof (cases i)
      case 0
      with eq e'num show ?thesis by simp
    next
      case (Suc i')
      with Cons.IH[of e' i'] e'num Cons.prems eq show ?thesis by simp
    qed
  qed
qed


text \<open>
  C4: \<open>calculateEMA\<close> returns one output per input, in the order of the input. A value
  that is \<open>null\<close>, \<open>undefined\<close> or not a number gives \<open>null\<close> at its position. The first
  valid value is returned as it is (it seeds the running average). Every later valid
  value \<open>v\<close> gives \<open>alpha * v + (1 - alpha) * ema\<close> with \<open>alpha = 2 / (span + 1)\<close>, where
  \<open>ema\<close> is the output at the previous valid position, whatever the number of invalid
  values in between. With span 2 (\<open>alpha = 2/3\<close>) the series 10, \<open>null\<close>, 20 gives
  10, \<open>null\<close>, 50/3.
\<close>

theorem calculateEMA_running_average:
  "length (calculateEMA h data key spanN) = length data
   \<and> (\<forall>i<length data. \<not> validValue h ((data ! i) key) \<longrightarrow> calculateEMA h data key spanN ! i = JNull)
   \<and> (\<forall>i<length data. validValue h ((data ! i) key) \<and> (\<forall>j<i. \<not> validValue h ((data ! j) key))
         \<longrightarrow> calculateEMA h data key spanN ! i = (data ! i) key)
   \<and> (\<forall>i<length data. \<forall>j<i. validValue h ((data ! j) key) \<and> validValue h ((data ! i) key)
           \<and> (\<forall>m. j < m \<and> m < i \<longrightarrow> \<not> validValue h ((data ! m) key))
         \<longrightarrow> calculateEMA h data key spanN ! i =
               JNumber (Num (2 / (real spanN + 1) * numOf h ((data ! i) key)
                             + (1 - 2 / (real spanN + 1)) * numOf h (calculateEMA h data key spanN ! j))))
   \<and> calculateEMA h gapSeries (Orig WinningPrice) 2 = [JNumber (Num 10), JNull, JNumber (Num (50 / 3))]"
proof (intro conjI allI impI)
  show "length (calculateEMA h data key spanN) = length data"
    by (simp add: calculateEMA_def emaLoop_length)
next
  fix i assume "i < length data" "\<not> validValue h ((data ! i) key)"
  then show "calculateEMA h data key spanN ! i = JNull"
    by (simp add: calculateEMA_def emaLoop_invalid)
next
  fix i assume "i < length data"
    and "validValue h ((data ! i) key) \<and> (\<forall>j<i. \<not> validValue h ((data ! j) key))"
  then show "calculateEMA h data key spanN ! i = (data ! i) key"
    by (simp add: calculateEMA_def emaLoop_first)
next
  fix i j
  assume i: "i < length data" and j: "j < i"
    and v: "validValue h ((data ! j) key) \<and> validValue h ((data ! i) key)
           \<and> (\<forall>m. j < m \<and> m < i \<longrightarrow> \<not> validValue h ((data ! m) key))"
  let ?a = "2 / (real spanN + 1)"
  let ?out = "emaLoop h ?a key JNull data"
  have step: "?out ! i = blend h ?a (?out ! j) ((data ! i) key)"
    using emaLoop_next[OF j i] v by blast
  obtain x where x: "ToNumber h ((data ! i) key) = Num x" using v valid_num by blast
  have "j < length data" using i j by simp
  then obtain y where y: "ToNumber h (?out ! j) = Num y"
    using emaLoop_numeric[of JNull h j data key ?a] v by auto
  show "calculateEMA h data key spanN ! i =
      JNumber (Num (?a * numOf h ((data ! i) key) + (1 - ?a) * numOf h (calculateEMA h data key spanN ! j)))"
    unfolding calculateEMA_def step blend_num[OF x y] numOf_Num[OF x] numOf_Num[OF y] ..
next
  show "calculateEMA h gapSeries (Orig WinningPrice) 2 = [JNumber (Num 10), JNull, JNumber (Num (50 / 3))]"
    by (simp add: calculateEMA_def gapSeries_def winningBid_simps orNull_def isNaN_def)
qed

theorem calculateEMA_running_average_witness:
  "calculateEMA seoulHost gapSeries (Orig WinningPrice) 2 ! 1 = JNull
   \<and> calculateEMA seoulHost gapSeries (Orig WinningPrice) 2 ! 0 = JNumber (Num 10)
   \<and> calculateEMA seoulHost gapSeries (Orig WinningPrice) 2 ! 2 = JNumber (Num (2 / 3 * 20 + (1 - 2 / 3) * 10))"
proof -
  note t = calculateEMA_running_average[of seoulHost gapSeries "Orig WinningPrice" 2]
  have len: "length gapSeries = 3" by (simp add: gapSeries_def)
  have g0: "(gapSeries ! 0) (Orig WinningPrice) = JNumber (Num 10)"
    and g2: "(gapSeries ! 2) (Orig WinningPrice) = JNumber (Num 20)"
    by (simp_all add: gapSeries_def winningBid_simps orNull_def)
  from t have a: "calculateEMA seoulHost gapSeries (Orig WinningPrice) 2 ! 1 = JNull"
    using gap_valid(2) len by simp
  from t have "\<forall>i<length gapSeries. validValue seoulHost ((gapSeries ! i) (Orig WinningPrice))
       \<and> (\<forall>j<i. \<not> validValue seoulHost ((gapSeries ! j) (Orig WinningPrice)))
       \<longrightarrow> calculateEMA seoulHost gapSeries (Orig WinningPrice) 2 ! i = (gapSeries ! i) (Orig WinningPrice)"
    by blast
  from this[rule_format, of 0] have b: "calculateEMA seoulHost gapSeries (Orig WinningPrice) 2 ! 0 = JNumber (Num 10)"
    using gap_valid(1) len g0 by simp
  have between: "\<forall>m. 0 < m \<and> m < 2 \<longrightarrow> \<not> validValue seoulHost ((gapSeries ! m) (Orig WinningPrice))"
  proof (intro allI impI)
    fix m :: nat assume "0 < m \<and> m < 2"
    then have "m = 1" by simp
    then show "\<not> validValue seoulHost ((gapSeries ! m) (Orig WinningPrice))" using gap_valid(2) by simp
  qed
  from t have "\<forall>i<length gapSeries. \<forall>j<i. validValue seoulHost ((gapSeries ! j) (Orig WinningPrice))
         \<and> validValue seoulHost ((gapSeries ! i) (Orig WinningPrice))
           \<and> (\<forall>m. j < m \<and> m < i \<longrightarrow> \<not> validValue seoulHost ((gapSeries ! m) (Orig WinningPrice)))
         \<longrightarrow> calculateEMA seoulHost gapSeries (Orig WinningPrice) 2 ! i =
               JNumber (Num (2 / (real 2 + 1) * numOf seoulHost ((gapSeries ! i) (Orig WinningPrice))
                             + (1 - 2 / (real 2 + 1)) * numOf seoulHost (calculateEMA seoulHost gapSeries (Orig WinningPrice) 2 ! j)))"
    by blast
  from this[rule_format, of 2 0] have c: "calculateEMA seoulHost gapSeries (Orig WinningPrice) 2 ! 2 = JNumber (Num (2 / 3 * 20 + (1 - 2 / 3) * 10))"
    using gap_valid(1,3) between len b g2 by (simp add: numOf_def)
  from a b c show ?thesis by blast
qed

section \<open>The LOESS smoother\<close>

lemma loessAccum_eq:
  "loessAccum h vs ws i (a, b) j =
     (if validValue h (vs ! j) then (a + tricube ws i j * numOf h (vs ! j), b + tricube ws i j) else (a, b))"
  by (cases "ToNumber h (vs ! j)") (auto simp: validValue_def isNaN_def numOf_def Let_def)

lemma foldl_loessAccum:
  "foldl (loessAccum h vs ws i) (a, b) js =
     (a + (\<Sum>j\<leftarrow>js. if validValue h (vs ! j) then tricube ws i j * numOf h (vs ! j) else 0),
      b + (\<Sum>j\<leftarrow>js. if validValue h (vs ! j) then tricube ws i j else 0))"
proof (induction js arbitrary: a b)
  case Nil then show ?case by simp
next
  case (Cons j js)
  show ?case by (simp only: foldl_Cons loessAccum_eq Cons.IH split: if_splits) (simp add: add.assoc)
qed

lemma sum_list_upt_valid:
  "(\<Sum>j\<leftarrow>[s..<e]. if P j then f j else (0::real)) = (\<Sum>j\<in>{j. s \<le> j \<and> j < e \<and> P j}. f j)"
proof -
  have "(\<Sum>j\<leftarrow>[s..<e]. if P j then f j else 0) = (\<Sum>j\<in>{s..<e}. if P j then f j else 0)"
    by (simp add: sum_list_distinct_conv_sum_set)
  also have "\<dots> = (\<Sum>j\<in>{s..<e} \<inter> {j. P j}. f j)"
    by (simp add: sum.inter_restrict)
  also have "{s..<e} \<inter> {j. P j} = {j. s \<le> j \<and> j < e \<and> P j}" by auto
  finally show ?thesis .
qed

lemma window_bounds:
  assumes "i < n"
  shows "3 \<le> loessWindowSize n bw"
    and "0 \<le> loessStart (loessWindowSize n bw) i"
    and "loessStart (loessWindowSize n bw) i \<le> int i"
    and "int i < loessEnd n (loessWindowSize n bw) i"
    and "loessEnd n (loessWindowSize n bw) i \<le> int n"
  using assms unfolding loessWindowSize_def loessStart_def loessEnd_def by linarith+

lemma window_distance:
  assumes "3 \<le> ws" "loessStart ws i \<le> int j" "int j < loessEnd n ws i"
  shows "\<bar>int i - int j\<bar> < ws"
  using assms unfolding loessStart_def loessEnd_def by linarith

lemma tricube_pos:
  assumes "0 < ws" "\<bar>int i - int j\<bar> < ws"
  shows "0 < tricube ws i j"
proof -
  let ?d = "\<bar>real_of_int (int i - int j)\<bar> / real_of_int ws"
  have d0: "0 \<le> ?d" using assms by simp
  have "\<bar>real_of_int (int i - int j)\<bar> < real_of_int ws"
    using assms(2) by linarith
  then have d1: "?d < 1" using assms(1) by simp
  have "?d ^ 3 < 1" using d0 d1 by (simp add: power_less_one_iff)
  then show ?thesis unfolding tricube_def by simp
qed

lemma loessAt_sums:
  fixes bw :: real
  assumes i: "i < length vs" and v: "validValue h (vs ! i)"
  defines "ws \<equiv> loessWindowSize (length vs) bw"
  defines "W \<equiv> {j. loessStart ws i \<le> int j \<and> int j < loessEnd (length vs) ws i \<and> validValue h (vs ! j)}"
  shows "0 < (\<Sum>j\<in>W. tricube ws i j)"
    and "loessAt h vs bw i =
           Some (Num ((\<Sum>j\<in>W. tricube ws i j * numOf h (vs ! j)) / (\<Sum>j\<in>W. tricube ws i j)))"
proof -
  note wb = window_bounds[OF i, of bw, folded ws_def]
  have Weq: "{j. nat (loessStart ws i) \<le> j \<and> j < nat (loessEnd (length vs) ws i) \<and> validValue h (vs ! j)} = W"
    unfolding W_def using wb(2) by auto
  have fin: "finite W"
  proof (rule finite_subset)
    show "W \<subseteq> {..<length vs}" unfolding W_def using wb(5) by auto
  qed simp
  have iW: "i \<in> W" unfolding W_def using wb v by simp
  have pos: "0 < tricube ws i j" if "j \<in> W" for j
  proof (rule tricube_pos)
    show "0 < ws" using wb(1) by simp
    show "\<bar>int i - int j\<bar> < ws"
      using that wb(1) unfolding W_def by (intro window_distance[of ws i j "length vs"]) auto
  qed
  show sumpos: "0 < (\<Sum>j\<in>W. tricube ws i j)"
    using fin iW pos by (intro sum_pos) auto
  have "foldl (loessAccum h vs ws i) (0, 0) [nat (loessStart ws i)..<nat (loessEnd (length vs) ws i)]
        = ((\<Sum>j\<in>W. tricube ws i j * numOf h (vs ! j)), (\<Sum>j\<in>W. tricube ws i j))"
    by (simp add: foldl_loessAccum sum_list_upt_valid Weq)
  then show "loessAt h vs bw i =
           Some (Num ((\<Sum>j\<in>W. tricube ws i j * numOf h (vs ! j)) / (\<Sum>j\<in>W. tricube ws i j)))"
    using v sumpos unfolding loessAt_def Let_def ws_def[symmetric]
    by (simp add: validValue_def)
qed

lemma loessAt_invalid: "\<not> validValue h (vs ! i) \<Longrightarrow> loessAt h vs bw i = None"
  by (auto simp: loessAt_def validValue_def Let_def)

lemma calculateLOESS_nth:
  "i < length data \<Longrightarrow> calculateLOESS h data key bw ! i = loessAt h (map (\<lambda>d. d key) data) bw i"
  by (simp add: calculateLOESS_def Let_def)

text \<open>
  C6: at every index \<open>i\<close> of the series, \<open>calculateLOESS\<close> gives \<open>null\<close> when the value at
  \<open>i\<close> is not valid, and otherwise the weighted average of the valid values at the indices
  \<open>j\<close> of the window: the window has size \<open>max(3, floor(n * bandwidth))\<close>, starts at
  \<open>max(0, i - floor(windowSize / 2))\<close> and stops before \<open>min(n, start + windowSize)\<close>; the
  weight of \<open>j\<close> is \<open>(1 - (|i - j| / windowSize)^3)^3\<close>.
\<close>

theorem calculateLOESS_window_average:
  assumes "i < length data"
  shows "calculateLOESS h data key bandwidth ! i =
     (let n = length data;
          windowSize = max 3 \<lfloor>real n * bandwidth\<rfloor>;
          start = max 0 (int i - windowSize div 2);
          W = {j. start \<le> int j \<and> int j < min (int n) (start + windowSize) \<and> validValue h ((data ! j) key)};
          weight = (\<lambda>j. (1 - (\<bar>real_of_int (int i - int j)\<bar> / real_of_int windowSize) ^ 3) ^ 3)
      in if validValue h ((data ! i) key)
         then Some (Num ((\<Sum>j\<in>W. weight j * numOf h ((data ! j) key)) / (\<Sum>j\<in>W. weight j)))
         else None)"
proof (cases "validValue h ((data ! i) key)")
  case False
  then show ?thesis using assms by (simp add: calculateLOESS_nth loessAt_invalid Let_def)
next
  case True
  define vs where "vs = map (\<lambda>d. d key) data"
  define ws where "ws = loessWindowSize (length data) bandwidth"
  define W where "W = {j. loessStart ws i \<le> int j \<and> int j < loessEnd (length data) ws i \<and> validValue h (vs ! j)}"
  define W' where "W' = {j. loessStart ws i \<le> int j \<and> int j < loessEnd (length data) ws i \<and> validValue h ((data ! j) key)}"
  have len: "length vs = length data" by (simp add: vs_def)
  have i: "i < length vs" and v: "validValue h (vs ! i)" using assms True by (simp_all add: vs_def)
  have nth: "vs ! j = (data ! j) key" if "j < length data" for j using that by (simp add: vs_def)
  have inb: "j < length data" if "int j < loessEnd (length data) ws i" for j
    using that unfolding loessEnd_def by linarith
  have W: "W = W'"
  proof (rule set_eqI)
    fix j show "j \<in> W \<longleftrightarrow> j \<in> W'"
    proof (cases "int j < loessEnd (length data) ws i")
      case True
      then show ?thesis unfolding W_def W'_def using nth[OF inb[OF True]] by simp
    next
      case False
      then show ?thesis unfolding W_def W'_def by simp
    qed
  qed
  have s1: "(\<Sum>j\<in>W'. tricube ws i j * numOf h (vs ! j)) = (\<Sum>j\<in>W'. tricube ws i j * numOf h ((data ! j) key))"
  proof (rule sum.cong[OF refl])
    fix j assume "j \<in> W'"
    then have "j < length data" unfolding W'_def using inb by simp
    then show "tricube ws i j * numOf h (vs ! j) = tricube ws i j * numOf h ((data ! j) key)"
      by (simp only: nth)
  qed
  have "loessAt h vs bandwidth i =
      Some (Num ((\<Sum>j\<in>W. tricube ws i j * numOf h (vs ! j)) / (\<Sum>j\<in>W. tricube ws i j)))"
    using loessAt_sums(2)[OF i v, of bandwidth] unfolding len ws_def W_def .
  then have "loessAt h vs bandwidth i =
      Some (Num ((\<Sum>j\<in>W'. tricube ws i j * numOf h ((data ! j) key)) / (\<Sum>j\<in>W'. tricube ws i j)))"
    unfolding W s1 .
  then have "calculateLOESS h data key bandwidth ! i =
      Some (Num ((\<Sum>j\<in>W'. tricube ws i j * numOf h ((data ! j) key)) / (\<Sum>j\<in>W'. tricube ws i j)))"
    using calculateLOESS_nth[OF assms, of h key bandwidth, folded vs_def] by (simp only:)
  then show ?thesis
    unfolding Let_def W'_def ws_def loessWindowSize_def loessStart_def loessEnd_def tricube_def
    using True by (simp only: if_True)
qed

theorem calculateLOESS_window_average_witness:
  "calculateLOESS seoulHost gapSeries (Orig WinningPrice) (3 / 10) ! 1 = None
   \<and> calculateLOESS seoulHost gapSeries (Orig WinningPrice) (3 / 10) ! 0 = Some (Num (167005 / 13271))"
proof -
  have len: "length gapSeries = 3" by (simp add: gapSeries_def)
  have g0: "(gapSeries ! 0) (Orig WinningPrice) = JNumber (Num 10)"
    and g2: "(gapSeries ! 2) (Orig WinningPrice) = JNumber (Num 20)"
    by (simp_all add: gapSeries_def winningBid_simps orNull_def)
  have a: "calculateLOESS seoulHost gapSeries (Orig WinningPrice) (3 / 10) ! 1 = None"
    using calculateLOESS_window_average[of 1 gapSeries seoulHost "Orig WinningPrice" "3 / 10"]
      gap_valid(2) len by (simp add: Let_def)
  have b: "calculateLOESS seoulHost gapSeries (Orig WinningPrice) (3 / 10) ! 0 = Some (Num (167005 / 13271))"
    using calculateLOESS_window_average[of 0 gapSeries seoulHost "Orig WinningPrice" "3 / 10"]
      gap_valid(1) len
    by (simp add: Let_def gap_window g0 g2 numOf_def power3_eq_cube)
  from a b show ?thesis by blast
qed

text \<open>
  C10: where the value at index \<open>i\<close> is valid, the output of \<open>calculateLOESS\<close> at \<open>i\<close> is a
  number and never \<open>null\<close>: the window contains \<open>i\<close> itself with weight 1 and every other
  weight in the window is positive, so the sum of the weights is positive.
\<close>

theorem calculateLOESS_valid_not_null:
  assumes "i < length data" and "validValue h ((data ! i) key)"
  shows "\<exists>x. calculateLOESS h data key bandwidth ! i = Some (Num x)"
proof -
  have "i < length (map (\<lambda>d. d key) data)" "validValue h (map (\<lambda>d. d key) data ! i)"
    using assms by simp_all
  from loessAt_sums(2)[OF this, of bandwidth] assms(1) show ?thesis
    by (simp add: calculateLOESS_nth)
qed

theorem calculateLOESS_valid_not_null_witness:
  "2 < length gapSeries \<and> validValue seoulHost ((gapSeries ! 2) (Orig WinningPrice))
   \<and> (\<exists>x. calculateLOESS seoulHost gapSeries (Orig WinningPrice) (3 / 10) ! 2 = Some (Num x))"
proof -
  have len: "2 < length gapSeries" by (simp add: gapSeries_def)
  from len gap_valid(3) calculateLOESS_valid_not_null[OF len gap_valid(3), of "3 / 10"]
  show ?thesis by blast
qed

section \<open>Forecast extrapolation\<close>

text \<open>
  The projection with no valid value, with a single valid value other than 0, and with
  two or more valid values: the slope is taken between the first and the last of the
  last five valid values (of all of them when they are fewer).
\<close>

lemma predictLOESS_cases:
  "(validLoess vs = [] \<longrightarrow> predictLOESS vs months = replicate months None)
   \<and> (\<forall>x. validLoess vs = [x] \<and> x \<noteq> 0 \<longrightarrow> predictLOESS vs months = replicate months (Some (Num x)))
   \<and> (2 \<le> length (validLoess vs) \<longrightarrow>
        predictLOESS vs months =
          (let valid = validLoess vs;
               recent = drop (length valid - 5) valid;
               slope = (last recent - hd recent) / (real (length recent) - 1)
           in map (\<lambda>k. Some (Num (last valid + slope * real k))) [1..<Suc months]))"
proof (intro conjI allI impI)
  assume "validLoess vs = []"
  then show "predictLOESS vs months = replicate months None"
    by (simp add: predictLOESS_def lastOrNull_def)
next
  fix x assume "validLoess vs = [x] \<and> x \<noteq> 0"
  then show "predictLOESS vs months = replicate months (Some (Num x))"
    by (simp add: predictLOESS_def lastOrNull_def)
next
  assume two: "2 \<le> length (validLoess vs)"
  define n where "n = length (validLoess vs)"
  have d: "n - min 5 n = n - 5" by simp
  have l: "length (drop (n - 5) (validLoess vs)) = min 5 n" unfolding n_def by auto
  show "predictLOESS vs months =
          (let valid = validLoess vs;
               recent = drop (length valid - 5) valid;
               slope = (last recent - hd recent) / (real (length recent) - 1)
           in map (\<lambda>k. Some (Num (last valid + slope * real k))) [1..<Suc months])"
    using two unfolding predictLOESS_def Let_def n_def[symmetric] d l by simp
qed

text \<open>
  C5: on a series whose only valid value is the number 0, \<open>predictLOESS\<close> returns \<open>null\<close>
  at every position, although a valid value exists: \<open>validValues[length - 1] || null\<close> takes
  0 for a missing value. On a series whose only valid value is 7 the projection is flat
  at 7. The series of one record with the amount 0 is smoothed to the single value 0,
  so the pipeline reaches the case.
\<close>

theorem predictLOESS_single_zero:
  "predictLOESS [Some (Num 0)] 3 = [None, None, None]
   \<and> predictLOESS [Some (Num 7)] 3 = [Some (Num 7), Some (Num 7), Some (Num 7)]
   \<and> predictLOESS (calculateLOESS seoulHost [winningBid ''2024-01-01'' (JNumber (Num 0))] (Orig WinningPrice) (3 / 10)) 3
       = [None, None, None]"
  by (simp add: predictLOESS_def validLoess_def lastOrNull_def numeral_3_eq_3
      calculateLOESS_def loessAt_def loessWindowSize_def loessStart_def loessEnd_def
      winningBid_simps orNull_def isNaN_def tricube_def)

section \<open>Dates\<close>

lemma div_bounds: "0 < n \<Longrightarrow> n * (a div n) \<le> a \<and> a < n * (a div n) + (n::int)"
  by (metis add.commute mult.commute div_mult_mod_eq pos_mod_bound pos_mod_sign add_le_cancel_left add_less_cancel_left le_add_same_cancel1 mult_div_mod_eq)

lemma DayFromYear_near:
  "DayFromYear y * 400 \<le> 146097 * (y - 1970) + 593 \<and> 146097 * (y - 1970) - 607 \<le> DayFromYear y * 400"
proof -
  define A where "A = (y - 1969) div 4"
  define B where "B = (y - 1901) div 100"
  define C where "C = (y - 1601) div 400"
  have a: "4 * A \<le> y - 1969 \<and> y - 1969 < 4 * A + 4"
    unfolding A_def by (rule div_bounds) simp
  have b: "100 * B \<le> y - 1901 \<and> y - 1901 < 100 * B + 100"
    unfolding B_def by (rule div_bounds) simp
  have c: "400 * C \<le> y - 1601 \<and> y - 1601 < 400 * C + 400"
    unfolding C_def by (rule div_bounds) simp
  have d: "DayFromYear y = 365 * (y - 1970) + A - B + C"
    unfolding DayFromYear_def A_def B_def C_def ..
  show ?thesis unfolding d using a b c by (simp add: algebra_simps)
qed

lemma YearFromDay_bounds:
  "DayFromYear (YearFromDay d) \<le> d \<and> d < DayFromYear (YearFromDay d + 1)"
proof -
  define q where "q = (d * 400) div 146097"
  define y where "y = 1970 + q"
  have e: "146097 * q \<le> d * 400 \<and> d * 400 < 146097 * q + 146097"
    unfolding q_def by (rule div_bounds) simp
  have lo: "DayFromYear (y - 1) \<le> d"
    using DayFromYear_near[of "y - 1"] e unfolding y_def by (simp add: algebra_simps)
  have hi: "d < DayFromYear (y + 2)"
    using DayFromYear_near[of "y + 2"] e unfolding y_def by (simp add: algebra_simps)
  have eq: "YearFromDay d = (if d < DayFromYear y then y - 1 else if DayFromYear (y + 1) \<le> d then y + 1 else y)"
    unfolding YearFromDay_def y_def q_def Let_def ..
  show ?thesis
  proof (cases "d < DayFromYear y")
    case True
    then show ?thesis using lo eq by simp
  next
    case False
    show ?thesis
    proof (cases "DayFromYear (y + 1) \<le> d")
      case True
      have "YearFromDay d = y + 1" using False True eq by simp
      moreover have "y + 1 + 1 = y + 2" by simp
      ultimately show ?thesis using True hi by (simp only:) 
    next
      case F2: False
      then show ?thesis using False eq by simp
    qed
  qed
qed

lemma DayFromYear_strict: "DayFromYear y < DayFromYear (y + 1)"
proof -
  define A where "A = (y - 1969) div 4"
  define B where "B = (y - 1901) div 100"
  define C where "C = (y - 1601) div 400"
  define A' where "A' = (y + 1 - 1969) div 4"
  define B' where "B' = (y + 1 - 1901) div 100"
  define C' where "C' = (y + 1 - 1601) div 400"
  have a: "A \<le> A'" unfolding A_def A'_def by (rule zdiv_mono1) simp_all
  have c: "C \<le> C'" unfolding C_def C'_def by (rule zdiv_mono1) simp_all
  have b: "B' \<le> B + 1"
  proof -
    have "(y + 1 - 1901) div 100 \<le> (y - 1901 + 100) div 100" by (rule zdiv_mono1) simp_all
    then show ?thesis unfolding B_def B'_def by simp
  qed
  have d: "DayFromYear y = 365 * (y - 1970) + A - B + C"
    unfolding DayFromYear_def A_def B_def C_def ..
  have d': "DayFromYear (y + 1) = 365 * (y + 1 - 1970) + A' - B' + C'"
    unfolding DayFromYear_def A'_def B'_def C'_def ..
  show ?thesis unfolding d d' using a b c by (simp add: algebra_simps)
qed

lemma DayFromYear_mono: "y \<le> y' \<Longrightarrow> DayFromYear y \<le> DayFromYear y'"
proof (induction "nat (y' - y)" arbitrary: y')
  case 0
  then show ?case by simp
next
  case (Suc n)
  then have "n = nat ((y' - 1) - y)" "y \<le> y' - 1" by linarith+
  from Suc.hyps(1)[OF this] DayFromYear_strict[of "y' - 1"] show ?case by simp
qed

text \<open>\<open>YearFromDay d\<close> is the greatest year whose first day is not after \<open>d\<close>.\<close>

lemma YearFromDay_greatest:
  "DayFromYear y \<le> d \<longleftrightarrow> y \<le> YearFromDay d"
proof
  assume "DayFromYear y \<le> d"
  show "y \<le> YearFromDay d"
  proof (rule ccontr)
    assume "\<not> y \<le> YearFromDay d"
    then have "YearFromDay d + 1 \<le> y" by simp
    from DayFromYear_mono[OF this] YearFromDay_bounds[of d] \<open>DayFromYear y \<le> d\<close>
    show False by linarith
  qed
next
  assume "y \<le> YearFromDay d"
  from DayFromYear_mono[OF this] YearFromDay_bounds[of d] show "DayFromYear y \<le> d" by linarith
qed


lemma div_step:
  assumes "0 < (n::int)"
  shows "(a + 1) div n = a div n + (if (a + 1) mod n = 0 then 1 else 0)"
proof -
  define q where "q = a div n"
  define r where "r = a mod n"
  have a: "a = q * n + r" unfolding q_def r_def by simp
  have r: "0 \<le> r" "r < n" unfolding r_def using assms by simp_all
  show ?thesis
  proof (cases "r + 1 = n")
    case True
    then have "a + 1 = (q + 1) * n" using a by (simp add: algebra_simps)
    then show ?thesis using assms q_def by simp
  next
    case False
    then have lt: "r + 1 < n" using r by simp
    have eq: "a + 1 = q * n + (r + 1)" using a by simp
    have d: "(a + 1) div n = q"
      unfolding eq using lt r assms by (simp add: div_pos_pos_trivial)
    have m: "(a + 1) mod n = r + 1"
      unfolding eq using lt r assms by (simp add: mod_pos_pos_trivial)
    show ?thesis using d m r q_def by simp
  qed
qed

lemma DayFromYear_step: "DayFromYear (y + 1) = DayFromYear y + DaysInYear y"
proof -
  have a: "(y + 1 - 1969) div 4 = (y - 1969) div 4 + (if y mod 4 = 0 then 1 else 0)"
  proof -
    have "(y - 1969 + 1) mod 4 = (y + (- 492) * 4) mod 4" by simp
    then have "(y - 1969 + 1) mod 4 = 0 \<longleftrightarrow> y mod 4 = 0" by (simp only: mod_mult_self1)
    then show ?thesis using div_step[of 4 "y - 1969"] by (simp add: algebra_simps)
  qed
  have b: "(y + 1 - 1901) div 100 = (y - 1901) div 100 + (if y mod 100 = 0 then 1 else 0)"
  proof -
    have "(y - 1901 + 1) mod 100 = (y + (- 19) * 100) mod 100" by simp
    then have "(y - 1901 + 1) mod 100 = 0 \<longleftrightarrow> y mod 100 = 0" by (simp only: mod_mult_self1)
    then show ?thesis using div_step[of 100 "y - 1901"] by (simp add: algebra_simps)
  qed
  have c: "(y + 1 - 1601) div 400 = (y - 1601) div 400 + (if y mod 400 = 0 then 1 else 0)"
  proof -
    have "(y - 1601 + 1) mod 400 = (y + (- 4) * 400) mod 400" by simp
    then have "(y - 1601 + 1) mod 400 = 0 \<longleftrightarrow> y mod 400 = 0" by (simp only: mod_mult_self1)
    then show ?thesis using div_step[of 400 "y - 1601"] by (simp add: algebra_simps)
  qed
  have m1: "y mod 4 = 0" if "y mod 100 = 0"
  proof -
    have "(4::int) dvd 100" by simp
    moreover have "100 dvd y" using that by (simp add: mod_eq_0_iff_dvd)
    ultimately have "4 dvd y" by (rule dvd_trans)
    then show ?thesis by (simp add: mod_eq_0_iff_dvd)
  qed
  have m2: "y mod 100 = 0" if "y mod 400 = 0"
  proof -
    have "(100::int) dvd 400" by simp
    moreover have "400 dvd y" using that by (simp add: mod_eq_0_iff_dvd)
    ultimately have "100 dvd y" by (rule dvd_trans)
    then show ?thesis by (simp add: mod_eq_0_iff_dvd)
  qed
  show ?thesis
    unfolding DayFromYear_def DaysInYear_def a b c using m1 m2 by (auto simp: algebra_simps)
qed

lemma YearFromDay_unique:
  assumes "DayFromYear y \<le> d" "d < DayFromYear (y + 1)"
  shows "YearFromDay d = y"
proof -
  have "y \<le> YearFromDay d" using assms(1) YearFromDay_greatest by blast
  moreover have "\<not> y + 1 \<le> YearFromDay d" using assms(2) YearFromDay_greatest[of "y + 1" d] by simp
  ultimately show ?thesis by simp
qed

lemma DaysInYear_cases: "DaysInYear y = 365 \<or> DaysInYear y = 366"
  by (simp add: DaysInYear_def)

lemma month_cases:
  assumes "0 \<le> (m::int)" "m < 12"
  obtains "m = 0" | "m = 1" | "m = 2" | "m = 3" | "m = 4" | "m = 5" | "m = 6"
    | "m = 7" | "m = 8" | "m = 9" | "m = 10" | "m = 11"
proof -
  have "m = 0 \<or> m = 1 \<or> m = 2 \<or> m = 3 \<or> m = 4 \<or> m = 5 \<or> m = 6
    \<or> m = 7 \<or> m = 8 \<or> m = 9 \<or> m = 10 \<or> m = 11"
    using assms by arith
  then show ?thesis using that by blast
qed

lemma MakeDay_inverse:
  fixes year month date t :: int
  defines "ym \<equiv> year + month div 12" and "mn \<equiv> month mod 12"
  assumes d: "1 \<le> date" "date \<le> DaysInMonth ym mn"
  assumes t: "Day t = MakeDay year month date"
  shows "YearFromTime t = ym" and "MonthFromTime t = mn" and "DateFromTime t = date"
proof -
  define l :: int where "l = (if DaysInYear ym = 366 then 1 else 0)"
  define ms where "ms = [0, 31, 59 + l, 90 + l, 120 + l, 151 + l, 181 + l, 212 + l,
                        243 + l, 273 + l, 304 + l, 334 + l] ! nat mn"
  have mn: "0 \<le> mn" "mn < 12" unfolding mn_def by simp_all
  have l01: "l = 0 \<or> l = 1" unfolding l_def by simp
  have diy: "DaysInYear ym = 365 + l" unfolding l_def using DaysInYear_cases[of ym] by auto
  have D: "Day t = DayFromYear ym + ms + date - 1"
    unfolding t MakeDay_def Let_def ym_def mn_def ms_def l_def ..
  have dim: "DaysInMonth ym mn = [31, 28 + l, 31, 30, 31, 30, 31, 31, 30, 31, 30, 31] ! nat mn"
    unfolding DaysInMonth_def Let_def l_def ..
  have d': "date \<le> [31, 28 + l, 31, 30, 31, 30, 31, 31, 30, 31, 30, 31] ! nat mn"
    using d(2) unfolding dim .
  have within: "0 \<le> ms + date - 1 \<and> ms + date - 1 < 365 + l"
    using mn
  proof (cases mn rule: month_cases)
  qed (use d(1) d' l01 in \<open>auto simp: ms_def\<close>)
  have yr: "YearFromTime t = ym"
    unfolding YearFromTime_def
  proof (rule YearFromDay_unique)
    show "DayFromYear ym \<le> Day t" using D within by simp
    show "Day t < DayFromYear (ym + 1)" using D within DayFromYear_step[of ym] diy by simp
  qed
  have leap: "InLeapYear t = l" unfolding InLeapYear_def yr l_def ..
  have dwy: "DayWithinYear t = ms + date - 1" unfolding DayWithinYear_def yr D by simp
  show "YearFromTime t = ym" by (rule yr)
  show m: "MonthFromTime t = mn"
    unfolding MonthFromTime_def Let_def leap dwy using mn
  proof (cases mn rule: month_cases)
  qed (use d(1) d' l01 in \<open>auto simp: ms_def\<close>)
  show "DateFromTime t = date"
    unfolding DateFromTime_def Let_def leap dwy m using mn
  proof (cases mn rule: month_cases)
  qed (use d(1) d' l01 in \<open>auto simp: ms_def\<close>)
qed

lemma Day_MakeDate:
  assumes "0 \<le> tod" "tod < msPerDay"
  shows "Day (MakeDate D tod) = D" and "TimeWithinDay (MakeDate D tod) = tod"
proof -
  have pos: "0 < msPerDay" by (simp add: msPerDay_def)
  have "(D * msPerDay + tod) div msPerDay = D + tod div msPerDay"
    using pos by simp
  then show "Day (MakeDate D tod) = D"
    unfolding Day_def MakeDate_def using assms by (simp add: div_pos_pos_trivial)
  have "(D * msPerDay + tod) mod msPerDay = tod mod msPerDay" by simp
  then show "TimeWithinDay (MakeDate D tod) = tod"
    unfolding TimeWithinDay_def MakeDate_def using assms by (simp add: mod_pos_pos_trivial)
qed

lemma DaysInMonth_ge_28: "0 \<le> m \<Longrightarrow> m < 12 \<Longrightarrow> 28 \<le> DaysInMonth y m"
  by (cases m rule: month_cases) (auto simp: DaysInMonth_def Let_def)

lemma MakeDay_small:
  assumes "0 \<le> year + month div 12" "year + month div 12 \<le> 9999" "1 \<le> date" "date \<le> 31"
  shows "\<bar>MakeDate (MakeDay year month date) 0\<bar> \<le> 8640000000000000"
proof -
  define ym where "ym = year + month div 12"
  define mn where "mn = month mod 12"
  define l :: int where "l = (if DaysInYear ym = 366 then 1 else 0)"
  define ms where "ms = [0, 31, 59 + l, 90 + l, 120 + l, 151 + l, 181 + l, 212 + l,
                        243 + l, 273 + l, 304 + l, 334 + l] ! nat mn"
  have mn: "0 \<le> mn" "mn < 12" unfolding mn_def by simp_all
  have l01: "l = 0 \<or> l = 1" unfolding l_def by simp
  have D: "MakeDay year month date = DayFromYear ym + ms + date - 1"
    unfolding MakeDay_def Let_def ym_def mn_def ms_def l_def ..
  have ms: "0 \<le> ms \<and> ms \<le> 335"
    using mn
  proof (cases mn rule: month_cases)
  qed (use l01 in \<open>auto simp: ms_def\<close>)
  have y: "0 \<le> ym" "ym \<le> 9999" using assms unfolding ym_def by simp_all
  have "DayFromYear ym * 400 \<le> 146097 * (ym - 1970) + 593"
    and "146097 * (ym - 1970) - 607 \<le> DayFromYear ym * 400"
    using DayFromYear_near[of ym] by simp_all
  then have "- 720000 \<le> DayFromYear ym \<and> DayFromYear ym \<le> 2940000" using y by simp
  then have "- 720000 \<le> MakeDay year month date \<and> MakeDay year month date \<le> 2941000"
    unfolding D using ms assms(3,4) by simp
  then show ?thesis unfolding MakeDate_def msPerDay_def abs_le_iff by arith
qed

lemma toISOString_date:
  assumes "Day t = MakeDay year month date" "1 \<le> date" "date \<le> 28"
    and "0 \<le> year + month div 12" "year + month div 12 \<le> 9999"
  shows "\<exists>s. toISOString (Some t) = Inr s
            \<and> take 10 s = isoDateString (year + month div 12) (month mod 12) date"
proof -
  have "date \<le> DaysInMonth (year + month div 12) (month mod 12)"
    using DaysInMonth_ge_28[of "month mod 12" "year + month div 12"] assms(3) by simp
  note inv = MakeDay_inverse[OF assms(2) this assms(1)]
  have ys: "yearString (year + month div 12) = pad4 (year + month div 12)"
    using assms(4,5) by (simp add: yearString_def)
  show ?thesis
    by (simp add: toISOString_def inv ys isoDateString_def pad4_def pad2_def)
qed

lemma setMonth_midnight:
  assumes tz: "0 \<le> tzMinutes h" "tzMinutes h < 1440"
    and m: "0 \<le> m" "m < 12" and d: "1 \<le> d" "d \<le> 28"
    and y: "0 \<le> y + (m + i) div 12" "y + (m + i) div 12 \<le> 9999"
  defines "t0 \<equiv> MakeDate (MakeDay y m d) 0"
  shows "getMonth h (Some t0) = Some m"
    and "setMonth h (Some t0) (Some (m + i)) = Some (MakeDate (MakeDay y (m + i) d) 0)"
proof -
  have tod: "0 \<le> tzMinutes h * 60000" "tzMinutes h * 60000 < msPerDay"
    using tz by (simp_all add: msPerDay_def)
  have loc: "LocalTime h t0 = MakeDate (MakeDay y m d) (tzMinutes h * 60000)"
    unfolding LocalTime_def t0_def MakeDate_def by simp
  have day: "Day (LocalTime h t0) = MakeDay y m d" unfolding loc by (rule Day_MakeDate[OF tod])
  have twd: "TimeWithinDay (LocalTime h t0) = tzMinutes h * 60000"
    unfolding loc by (rule Day_MakeDate[OF tod])
  have mm: "m mod 12 = m" "m div 12 = 0" using m by simp_all
  have dim: "d \<le> DaysInMonth (y + m div 12) (m mod 12)"
    using DaysInMonth_ge_28[of m y] m d(2) by (simp add: mm)
  note inv = MakeDay_inverse[OF d(1) dim day, unfolded mm]
  show "getMonth h (Some t0) = Some m"
    unfolding getMonth_def using inv(2) by simp
  have clip: "TimeClip (MakeDate (MakeDay y (m + i) d) 0) = Some (MakeDate (MakeDay y (m + i) d) 0)"
    using MakeDay_small[OF y d(1)] d(2) by (simp add: TimeClip_def)
  have "UTC h (MakeDate (MakeDay y (m + i) d) (tzMinutes h * 60000)) = MakeDate (MakeDay y (m + i) d) 0"
    unfolding UTC_def MakeDate_def by simp
  then show "setMonth h (Some t0) (Some (m + i)) = Some (MakeDate (MakeDay y (m + i) d) 0)"
    unfolding setMonth_def using inv(1,3) twd clip by (simp add: Let_def)
qed

lemma futureLoop_days:
  assumes tz: "0 \<le> tzMinutes h" "tzMinutes h < 1440"
    and m: "0 \<le> m" "m < 12" and d: "1 \<le> d" "d \<le> 28"
    and y: "0 \<le> y" "\<forall>i\<in>set ks. y + (m + int i) div 12 \<le> 9999"
  shows "futureLoop h (Some (MakeDate (MakeDay y m d) 0)) ks
           = Inr (map (\<lambda>k. isoDateString (y + (m + int k) div 12) ((m + int k) mod 12) d) ks)"
  using y(2)
proof (induction ks)
  case Nil
  then show ?case by simp
next
  case (Cons k ks)
  have y1: "0 \<le> y + (m + int k) div 12" using y(1) m(1) by (simp add: pos_imp_zdiv_nonneg_iff)
  have y2: "y + (m + int k) div 12 \<le> 9999" using Cons.prems by simp
  note sm = setMonth_midnight[OF tz m d y1 y2]
  have day: "Day (MakeDate (MakeDay y (m + int k) d) 0) = MakeDay y (m + int k) d"
    by (rule Day_MakeDate) (simp_all add: msPerDay_def)
  obtain s where s: "toISOString (Some (MakeDate (MakeDay y (m + int k) d) 0)) = Inr s"
    "take 10 s = isoDateString (y + (m + int k) div 12) ((m + int k) mod 12) d"
    using toISOString_date[OF day d y1 y2] by blast
  have rest: "futureLoop h (Some (MakeDate (MakeDay y m d) 0)) ks
           = Inr (map (\<lambda>k. isoDateString (y + (m + int k) div 12) ((m + int k) mod 12) d) ks)"
    using Cons by simp
  show ?case
    by (simp add: Let_def sm s rest)
qed

text \<open>
  On a host whose local time is not behind UTC, from midnight UTC of a day up to the
  28th, the future dates are that day of the following months.
\<close>

lemma generateFutureDates_day_kept:
  assumes "Date_new h lastDate = Some (MakeDate (MakeDay y m d) 0)"
    and "0 \<le> tzMinutes h" "tzMinutes h < 1440"
    and "0 \<le> m" "m < 12" and "1 \<le> d" "d \<le> 28"
    and "0 \<le> y" "y + (m + int months) div 12 \<le> 9999"
  shows "generateFutureDates h lastDate months
           = Inr (map (\<lambda>k. isoDateString (y + (m + int k) div 12) ((m + int k) mod 12) d)
                      [1..<Suc months])"
proof -
  have "\<forall>i\<in>set [1..<Suc months]. y + (m + int i) div 12 \<le> 9999"
  proof
    fix i assume "i \<in> set [1..<Suc months]"
    then have "i \<le> months" by auto
    then have "m + int i \<le> m + int months" by simp
    then have "(m + int i) div 12 \<le> (m + int months) div 12" by (rule zdiv_mono1) simp
    then show "y + (m + int i) div 12 \<le> 9999" using assms(9) by simp
  qed
  from futureLoop_days[OF assms(2-8) this] show ?thesis
    unfolding generateFutureDates_def assms(1) .
qed

section \<open>Forecast dates\<close>

text \<open>
  C1: advancing 2024-01-31 by one, two and three months gives 2024-03-02, 2024-03-31 and
  2024-05-01: \<open>setMonth\<close> keeps the day of the month, and day 31 of February and of April
  runs over into the following month. The specification asks for the last day of the
  target month (2024-02-29, 2024-03-31, 2024-04-30). From 2024-01-15, where no day runs over,
  the dates are the 15th of the next three months.
\<close>

theorem generateFutureDates_month_end:
  "generateFutureDates seoulHost (JString ''2024-01-31'') 3
     = Inr [''2024-03-02'', ''2024-03-31'', ''2024-05-01'']
   \<and> generateFutureDates utcHost (JString ''2024-01-31'') 3
     = Inr [''2024-03-02'', ''2024-03-31'', ''2024-05-01'']
   \<and> generateFutureDates seoulHost (JString ''2024-01-15'') 3
     = Inr [''2024-02-15'', ''2024-03-15'', ''2024-04-15'']"
  by code_simp

section \<open>The date filter\<close>

lemma formatDate_Inl: "formatDate h v = Inl e \<longleftrightarrow> Date_new h v = None"
  by (cases e) (auto simp: formatDate_def toISOString_def split: option.splits sum.splits)

lemma formatDate_Inr: "(\<exists>s. formatDate h v = Inr s) \<longleftrightarrow> Date_new h v \<noteq> None"
  by (auto simp: formatDate_def toISOString_def split: option.splits sum.splits)

lemma filterDates_Inl:
  "filterDates h dateFrom dateTo ds = Inl e \<longleftrightarrow> (\<exists>d\<in>set ds. Date_new h (d BidDate) = None)"
proof (induction ds)
  case Nil then show ?case by simp
next
  case (Cons d ds)
  show ?case
  proof (cases "formatDate h (d BidDate)")
    case (Inl e')
    then have "Date_new h (d BidDate) = None" using formatDate_Inl by blast
    with Inl show ?thesis by (cases e, cases e') simp
  next
    case (Inr s)
    then have "Date_new h (d BidDate) \<noteq> None" using formatDate_Inr by blast
    with Inr Cons.IH show ?thesis by (auto split: sum.splits)
  qed
qed

lemma filterDates_Inr:
  "filterDates h dateFrom dateTo ds = Inr out \<Longrightarrow> out = filter (inWindow h dateFrom dateTo) ds"
proof (induction ds arbitrary: out)
  case Nil then show ?case by simp
next
  case (Cons d ds)
  from Cons.prems obtain s rest where s: "formatDate h (d BidDate) = Inr s"
    and rest: "filterDates h dateFrom dateTo ds = Inr rest"
    and out: "out = (if dateFrom \<noteq> [] \<and> s < dateFrom then rest
                     else if dateTo \<noteq> [] \<and> s > dateTo then rest else d # rest)"
    by (auto split: sum.splits)
  have w: "inWindow h dateFrom dateTo d \<longleftrightarrow> \<not> (dateFrom \<noteq> [] \<and> s < dateFrom) \<and> \<not> (dateTo \<noteq> [] \<and> s > dateTo)"
    unfolding inWindow_def s by (auto simp: not_less)
  show ?case using Cons.IH[OF rest] out w by auto
qed

lemma mset_insertSorted: "mset (insertSorted cmp x ys) = add_mset x (mset ys)"
  by (induction ys) auto

lemma mset_Array_sort: "mset (Array_sort cmp xs) = mset xs"
  unfolding Array_sort_def by (induction xs) (auto simp: mset_insertSorted)

lemma set_Array_sort: "set (Array_sort cmp xs) = set xs"
  using mset_Array_sort[of cmp xs] by (metis set_mset_mset)

lemma filteredRecords_Inl:
  "filteredRecords h rawData dateFrom dateTo = Inl e \<longleftrightarrow> (\<exists>d\<in>set rawData. Date_new h (d BidDate) = None)"
  by (simp add: filteredRecords_def filterDates_Inl set_Array_sort)

lemma winningBid_date: "winningBid date v BidDate = JString date"
  by (simp add: winningBid_def mapBidToTrendItem_def)

lemma window_times:
  "Date_new seoulHost (JString ''2024-01-15T03:00:00'') = Some 1705255200000"
  "Date_new seoulHost (JString ''2024-01-14'') = Some 1705190400000"
  "Date_new seoulHost (JString ''2024-01-16'') = Some 1705363200000"
  "Date_new seoulHost (JString ''2024-01-13'') = Some 1705104000000"
  by code_simp+

lemma window_dates:
  "formatDate seoulHost (JString ''2024-01-15T03:00:00'') = Inr ''2024-01-14''"
  "formatDate seoulHost (JString ''2024-01-14'') = Inr ''2024-01-14''"
  "formatDate seoulHost (JString ''2024-01-16'') = Inr ''2024-01-16''"
  "formatDate seoulHost (JString ''2024-01-13'') = Inr ''2024-01-13''"
  by code_simp+

lemma window_filtered:
  "filteredRecords seoulHost windowSeries ''2024-01-14'' ''2024-01-15''
     = Inr [winningBid ''2024-01-14'' (JNumber (Num 2)), winningBid ''2024-01-15T03:00:00'' (JNumber (Num 1))]"
  by (simp add: filteredRecords_def windowSeries_def Array_sort_def compareBidDate_def
      sortsAfter_def winningBid_date window_times window_dates)

lemma soon: "Date_new seoulHost (JString ''soon'') = None"
  by (simp add: Date_new_def seoulHost_def exampleDateParse_def)

text \<open>
  C7: when the filter returns, the filtered series holds exactly the records (with their
  multiplicities) whose ISO date string, the first ten characters of \<open>toISOString()\<close>,
  lies between \<open>dateFrom\<close> and \<open>dateTo\<close>, both bounds included; an empty bound does not
  restrict its side. The strings are compared, not the time stamps: on a host in Seoul
  the record of 2024-01-15T03:00:00 local time has the ISO date 2024-01-14 and lies in
  the window from 2024-01-14 to 2024-01-15 by that date.
\<close>

theorem filteredRecords_date_window:
  assumes "filteredRecords h rawData dateFrom dateTo = Inr filtered"
  shows "mset filtered =
     {#d \<in># mset rawData.
        \<exists>isoDate. formatDate h (d BidDate) = Inr isoDate
           \<and> (dateFrom = [] \<or> dateFrom \<le> isoDate) \<and> (dateTo = [] \<or> isoDate \<le> dateTo)#}"
proof -
  have p: "inWindow h dateFrom dateTo = (\<lambda>d. \<exists>isoDate. formatDate h (d BidDate) = Inr isoDate
           \<and> (dateFrom = [] \<or> dateFrom \<le> isoDate) \<and> (dateTo = [] \<or> isoDate \<le> dateTo))"
    by (rule ext) (auto simp: inWindow_def split: sum.splits)
  have "filtered = filter (inWindow h dateFrom dateTo) (Array_sort (compareBidDate h) rawData)"
    using assms filterDates_Inr by (simp add: filteredRecords_def)
  then have "mset filtered = filter_mset (inWindow h dateFrom dateTo) (mset rawData)"
    by (simp add: mset_Array_sort)
  then show ?thesis unfolding p .
qed

theorem filteredRecords_date_window_witness:
  "filteredRecords seoulHost windowSeries ''2024-01-14'' ''2024-01-15''
     = Inr [winningBid ''2024-01-14'' (JNumber (Num 2)), winningBid ''2024-01-15T03:00:00'' (JNumber (Num 1))]
   \<and> mset [winningBid ''2024-01-14'' (JNumber (Num 2)), winningBid ''2024-01-15T03:00:00'' (JNumber (Num 1))] =
     {#d \<in># mset windowSeries.
        \<exists>isoDate. formatDate seoulHost (d BidDate) = Inr isoDate
           \<and> (''2024-01-14'' = [] \<or> ''2024-01-14'' \<le> isoDate) \<and> (''2024-01-15'' = [] \<or> isoDate \<le> ''2024-01-15'')#}"
  using filteredRecords_date_window[OF window_filtered] window_filtered by blast

text \<open>
  C3: a record whose date does not parse is not compared with the bounds at all:
  \<open>formatDate\<close> calls \<open>toISOString()\<close> on the invalid date, which throws a RangeError. The
  filter throws exactly on the inputs that contain such a record, and then the whole
  pipeline throws, whatever the bounds, the mode and the smoothing toggles.
\<close>

theorem trendData_unparseable_date:
  "(filteredRecords h rawData dateFrom dateTo = Inl RangeError
      \<longleftrightarrow> (\<exists>d\<in>set rawData. Date_new h (d BidDate) = None))
   \<and> ((\<exists>d\<in>set rawData. Date_new h (d BidDate) = None)
      \<longrightarrow> trendData h rawData dateFrom dateTo md showEMA showLOESS = Inl RangeError)"
proof -
  have a: "filteredRecords h rawData dateFrom dateTo = Inl RangeError
      \<longleftrightarrow> (\<exists>d\<in>set rawData. Date_new h (d BidDate) = None)"
    by (rule filteredRecords_Inl)
  have "trendData h rawData dateFrom dateTo md showEMA showLOESS = Inl RangeError"
    if "\<exists>d\<in>set rawData. Date_new h (d BidDate) = None"
  proof -
    from that a have "filteredRecords h rawData dateFrom dateTo = Inl RangeError" by blast
    then show ?thesis unfolding trendData_def by (simp only: sum.case)
  qed
  with a show ?thesis by blast
qed

theorem trendData_unparseable_date_witness:
  "(\<exists>d\<in>set unparseable. Date_new seoulHost (d BidDate) = None)
   \<and> filteredRecords seoulHost unparseable ''2024-01-01'' [] = Inl RangeError
   \<and> trendData seoulHost unparseable ''2024-01-01'' [] Ratio True True = Inl RangeError"
proof -
  have e: "\<exists>d\<in>set unparseable. Date_new seoulHost (d BidDate) = None"
    by (simp add: unparseable_def winningBid_def mapBidToTrendItem_def soon)
  with trendData_unparseable_date[of seoulHost unparseable "''2024-01-01''" "[]" Ratio True True]
  show ?thesis by blast
qed

text \<open>The pipeline throws on a list with one record whose date is the text \<open>soon\<close>.\<close>

theorem trendData_unparseable_date_counterexample:
  "Date_new seoulHost (winningBid ''soon'' (JNumber (Num 110)) BidDate) = None
   \<and> trendData seoulHost unparseable [] [] Amount False False = Inl RangeError"
proof -
  have "filteredRecords seoulHost unparseable [] [] = Inl RangeError"
    by (simp add: filteredRecords_Inl unparseable_def winningBid_def mapBidToTrendItem_def soon)
  then show ?thesis by (simp add: trendData_def winningBid_def mapBidToTrendItem_def soon)
qed

section \<open>Forecast points\<close>

lemma attach_length: "length (attach k vals pd) = length pd"
  by (simp add: attach_def)

lemma attach_column: "k' \<noteq> k \<Longrightarrow> column k' (attach k vals pd) = column k' pd"
  unfolding column_def attach_def by (rule nth_equalityI) simp_all

lemma emaLoop_column:
  "column k ds = column k ds' \<Longrightarrow> emaLoop h a k e ds = emaLoop h a k e ds'"
proof (induction ds arbitrary: ds' e)
  case Nil
  then show ?case by (simp add: column_def)
next
  case (Cons d ds)
  then obtain d' ds'' where ds': "ds' = d' # ds''" by (cases ds') (auto simp: column_def)
  with Cons.prems have hd: "d k = d' k" and tl: "column k ds = column k ds''"
    by (simp_all add: column_def)
  show ?case unfolding ds' using Cons.IH[OF tl] hd by (simp add: Let_def)
qed

lemma calculateEMA_column:
  "column k ds = column k ds' \<Longrightarrow> calculateEMA h ds k n = calculateEMA h ds' k n"
  unfolding calculateEMA_def by (rule emaLoop_column)

lemma calculateLOESS_column:
  "column k ds = column k ds' \<Longrightarrow> calculateLOESS h ds k bw = calculateLOESS h ds' k bw"
  unfolding calculateLOESS_def column_def by simp

lemma smoothKey_column:
  assumes "baseKey k"
  shows "column k (processedData (smoothKey h sE sL st key)) = column k (processedData st)"
proof -
  have "k \<noteq> EMA key" "k \<noteq> LOESS key" using assms by (auto simp: baseKey_def)
  then show ?thesis by (simp add: smoothKey_def Let_def attach_column)
qed

lemma smoothKey_emaByKey:
  "emaByKey (smoothKey h sE sL st key) =
     (if sE then (emaByKey st)(key \<mapsto> calculateEMA h (processedData st) (Orig key) 10) else emaByKey st)"
  by (simp add: smoothKey_def Let_def)

lemma smoothKey_loessByKey:
  "loessByKey (smoothKey h sE sL st key) =
     (if sL then (loessByKey st)(key \<mapsto> calculateLOESS h (processedData st) (Orig key) (3 / 10))
      else loessByKey st)"
proof -
  have "column (Orig key) (attach (EMA key) vals (processedData st)) = column (Orig key) (processedData st)" for vals
    by (simp add: attach_column)
  then have "calculateLOESS h (attach (EMA key) vals (processedData st)) (Orig key) (3 / 10)
           = calculateLOESS h (processedData st) (Orig key) (3 / 10)" for vals
    by (rule calculateLOESS_column)
  then show ?thesis by (simp add: smoothKey_def Let_def)
qed

lemma smoothKeys_all:
  "(\<forall>k. baseKey k \<longrightarrow>
        column k (processedData (foldl (smoothKey h sE sL) st0 keys)) = column k (processedData st0))
   \<and> (\<forall>key. emaByKey (foldl (smoothKey h sE sL) st0 keys) key =
          (if sE \<and> key \<in> set keys
           then Some (calculateEMA h (processedData st0) (Orig key) 10) else emaByKey st0 key))
   \<and> (\<forall>key. loessByKey (foldl (smoothKey h sE sL) st0 keys) key =
          (if sL \<and> key \<in> set keys
           then Some (calculateLOESS h (processedData st0) (Orig key) (3 / 10)) else loessByKey st0 key))"
proof (induction keys rule: rev_induct)
  case Nil
  then show ?case by simp
next
  case (snoc x xs)
  let ?s = "foldl (smoothKey h sE sL) st0 xs"
  have col: "column (Orig x) (processedData ?s) = column (Orig x) (processedData st0)"
    using snoc.IH by (simp add: baseKey_def)
  have e: "calculateEMA h (processedData ?s) (Orig x) 10 = calculateEMA h (processedData st0) (Orig x) 10"
    using col by (rule calculateEMA_column)
  have l: "calculateLOESS h (processedData ?s) (Orig x) (3 / 10)
         = calculateLOESS h (processedData st0) (Orig x) (3 / 10)"
    using col by (rule calculateLOESS_column)
  have step: "foldl (smoothKey h sE sL) st0 (xs @ [x]) = smoothKey h sE sL ?s x" by simp
  from snoc.IH have ih2: "emaByKey ?s key = (if sE \<and> key \<in> set xs
           then Some (calculateEMA h (processedData st0) (Orig key) 10) else emaByKey st0 key)" for key
    by blast
  from snoc.IH have ih3: "loessByKey ?s key = (if sL \<and> key \<in> set xs
           then Some (calculateLOESS h (processedData st0) (Orig key) (3 / 10)) else loessByKey st0 key)" for key
    by blast
  show ?case
  proof (intro conjI allI impI)
    fix k assume "baseKey k"
    then show "column k (processedData (foldl (smoothKey h sE sL) st0 (xs @ [x]))) = column k (processedData st0)"
      using snoc.IH unfolding step by (simp add: smoothKey_column)
  next
    fix key
    show "emaByKey (foldl (smoothKey h sE sL) st0 (xs @ [x])) key =
          (if sE \<and> key \<in> set (xs @ [x])
           then Some (calculateEMA h (processedData st0) (Orig key) 10) else emaByKey st0 key)"
      unfolding step smoothKey_emaByKey e
      using ih2[of key] ih2[of x] by auto
  next
    fix key
    show "loessByKey (foldl (smoothKey h sE sL) st0 (xs @ [x])) key =
          (if sL \<and> key \<in> set (xs @ [x])
           then Some (calculateLOESS h (processedData st0) (Orig key) (3 / 10)) else loessByKey st0 key)"
      unfolding step smoothKey_loessByKey l
      using ih3[of key] ih3[of x] by auto
  qed
qed

lemma futureKey_apply:
  "futureKey sE sL st idx q x k =
     (case k of
        EMA key \<Rightarrow> (case emaByKey st x of
                      Some ev \<Rightarrow> if sE \<and> key = x then predictEMA (lastElement ev) 3 ! idx else q k
                    | None \<Rightarrow> q k)
      | LOESS key \<Rightarrow> (case loessByKey st x of
                      Some lv \<Rightarrow> if sL \<and> key = x then ofNullable (predictLOESS lv 3 ! idx) else q k
                    | None \<Rightarrow> q k)
      | _ \<Rightarrow> q k)"
  by (simp add: futureKey_def Let_def split: key.splits option.splits)

lemma futureKeys_point:
  "foldl (futureKey sE sL st idx) p keys k =
     (case k of
        EMA key \<Rightarrow> (case emaByKey st key of
                      Some ev \<Rightarrow> if sE \<and> key \<in> set keys then predictEMA (lastElement ev) 3 ! idx else p k
                    | None \<Rightarrow> p k)
      | LOESS key \<Rightarrow> (case loessByKey st key of
                      Some lv \<Rightarrow> if sL \<and> key \<in> set keys then ofNullable (predictLOESS lv 3 ! idx) else p k
                    | None \<Rightarrow> p k)
      | _ \<Rightarrow> p k)"
proof (induction keys arbitrary: k rule: rev_induct)
  case Nil
  then show ?case by (simp split: key.splits option.splits)
next
  case (snoc x xs)
  have step: "foldl (futureKey sE sL st idx) p (xs @ [x]) k'
            = futureKey sE sL st idx (foldl (futureKey sE sL st idx) p xs) x k'" for k' by simp
  have ih: "foldl (futureKey sE sL st idx) p xs k' =
     (case k' of
        EMA key \<Rightarrow> (case emaByKey st key of
                      Some ev \<Rightarrow> if sE \<and> key \<in> set xs then predictEMA (lastElement ev) 3 ! idx else p k'
                    | None \<Rightarrow> p k')
      | LOESS key \<Rightarrow> (case loessByKey st key of
                      Some lv \<Rightarrow> if sL \<and> key \<in> set xs then ofNullable (predictLOESS lv 3 ! idx) else p k'
                    | None \<Rightarrow> p k')
      | _ \<Rightarrow> p k')" for k'
    by (rule snoc.IH)
  show ?case
  proof (cases k)
    case BidDate
    then show ?thesis by (subst step, subst futureKey_apply) (simp add: ih)
  next
    case (Orig f)
    then show ?thesis by (subst step, subst futureKey_apply) (simp add: ih)
  next
    case (EMA f)
    show ?thesis
      unfolding EMA using ih[of "EMA f"]
      by (subst step, subst futureKey_apply) (auto split: option.splits)
  next
    case (LOESS f)
    show ?thesis
      unfolding LOESS using ih[of "LOESS f"]
      by (subst step, subst futureKey_apply) (auto split: option.splits)
  qed
qed

lemma futureLoop_length: "futureLoop h t ks = Inr dates \<Longrightarrow> length dates = length ks"
  by (induction ks arbitrary: dates) (auto simp: Let_def split: sum.splits)

lemma generateFutureDates_length:
  "generateFutureDates h v months = Inr dates \<Longrightarrow> length dates = months"
  unfolding generateFutureDates_def using futureLoop_length by fastforce


lemma last_column: "pd \<noteq> [] \<Longrightarrow> last (column k pd) = (last pd) k"
  by (simp add: column_def last_map)

lemma column_ratioPoint: "column BidDate (map (ratioPoint h) pd) = column BidDate pd"
  by (simp add: column_def ratioPoint_def)

lemma length_column: "length (column k pd) = length pd"
  by (simp add: column_def)

text \<open>
  What the pipeline appends when a smoothing line is on and the filtered series is not
  empty: three points, dated by \<open>generateFutureDates\<close> from the last record, with the five
  original fields \<open>null\<close>; for every field of the mode, the EMA forecast is the last
  element of the EMA series and the LOESS forecast is the projection of \<open>predictLOESS\<close>.
\<close>

lemma trendData_future_points:
  assumes f: "filteredRecords h rawData dateFrom dateTo = Inr filtered" and ne: "filtered \<noteq> []"
    and s: "showEMA \<or> showLOESS"
    and g: "generateFutureDates h ((last filtered) BidDate) 3 = Inr dates"
    and p: "processed = (if md = Amount then filtered else map (ratioPoint h) filtered)"
    and k: "keys = (if md = Amount then amountKeys else ratioKeys)"
  shows "\<exists>hist fut. trendData h rawData dateFrom dateTo md showEMA showLOESS = Inr (hist @ fut)
     \<and> length hist = length filtered \<and> length fut = 3
     \<and> (\<forall>i<3. (fut ! i) BidDate = JString (dates ! i)
          \<and> (\<forall>f. (fut ! i) (Orig f) = JNull)
          \<and> (\<forall>key\<in>set keys.
               (showEMA \<longrightarrow> (fut ! i) (EMA key) = lastElement (calculateEMA h processed (Orig key) 10))
             \<and> (showLOESS \<longrightarrow> (fut ! i) (LOESS key) =
                   ofNullable (predictLOESS (calculateLOESS h processed (Orig key) (3 / 10)) 3 ! i))))"
proof -
  define st0 where "st0 = \<lparr>processedData = processed, emaByKey = Map.empty, loessByKey = Map.empty\<rparr>"
  define st where "st = foldl (smoothKey h showEMA showLOESS) st0 keys"
  define fut where "fut = futurePoints showEMA showLOESS keys st dates"
  note inv = smoothKeys_all[of h showEMA showLOESS st0 keys, folded st_def]
  have p0: "processedData st0 = processed" by (simp add: st0_def)
  have colB: "column BidDate (processedData st) = column BidDate processed"
    using inv p0 by (simp add: baseKey_def)
  have ema: "emaByKey st key = (if showEMA \<and> key \<in> set keys
                then Some (calculateEMA h processed (Orig key) 10) else None)" for key
    using inv p0 by (simp add: st0_def)
  have loess: "loessByKey st key = (if showLOESS \<and> key \<in> set keys
                then Some (calculateLOESS h processed (Orig key) (3 / 10)) else None)" for key
    using inv p0 by (simp add: st0_def)
  have lenp: "length processed = length filtered" using p by simp
  have len: "length (processedData st) = length filtered"
    using colB length_column[of BidDate "processedData st"] length_column[of BidDate processed] lenp
    by simp
  have ne': "processedData st \<noteq> []" using len ne by auto
  have pne: "processed \<noteq> []" using lenp ne by auto
  have "(last (processedData st)) BidDate = last (column BidDate (processedData st))"
    using ne' by (simp add: last_column)
  also have "\<dots> = (last processed) BidDate" unfolding colB using pne by (simp add: last_column)
  also have "\<dots> = (last filtered) BidDate"
    using p ne by (auto simp: last_map ratioPoint_def)
  finally have lastd: "(last (processedData st)) BidDate = (last filtered) BidDate" .
  have td: "trendData h rawData dateFrom dateTo md showEMA showLOESS = Inr (processedData st @ fut)"
    unfolding trendData_def f fut_def st_def st0_def p k
    using s ne' lastd g
    by (simp add: Let_def st_def st0_def p k)
  have ld: "length dates = 3" using g by (rule generateFutureDates_length)
  have lf: "length fut = 3" by (simp add: fut_def futurePoints_def ld)
  have nth: "fut ! i = foldl (futureKey showEMA showLOESS st i) (emptyFuturePoint (dates ! i)) keys"
    if "i < 3" for i
    using that by (simp add: fut_def futurePoints_def ld)
  have fields: "(fut ! i) BidDate = JString (dates ! i)
          \<and> (\<forall>f. (fut ! i) (Orig f) = JNull)
          \<and> (\<forall>key\<in>set keys.
               (showEMA \<longrightarrow> (fut ! i) (EMA key) = lastElement (calculateEMA h processed (Orig key) 10))
             \<and> (showLOESS \<longrightarrow> (fut ! i) (LOESS key) =
                   ofNullable (predictLOESS (calculateLOESS h processed (Orig key) (3 / 10)) 3 ! i)))"
    if i: "i < 3" for i
  proof (intro conjI allI ballI impI)
    show "(fut ! i) BidDate = JString (dates ! i)"
      unfolding nth[OF i] futureKeys_point by (simp add: emptyFuturePoint_def)
  next
    fix f show "(fut ! i) (Orig f) = JNull"
      unfolding nth[OF i] futureKeys_point by (cases f) (simp_all add: emptyFuturePoint_def)
  next
    fix key assume "key \<in> set keys" showEMA
    then show "(fut ! i) (EMA key) = lastElement (calculateEMA h processed (Orig key) 10)"
      unfolding nth[OF i] futureKeys_point using i by (simp add: ema predictEMA_def)
  next
    fix key assume "key \<in> set keys" showLOESS
    then show "(fut ! i) (LOESS key) =
                   ofNullable (predictLOESS (calculateLOESS h processed (Orig key) (3 / 10)) 3 ! i)"
      unfolding nth[OF i] futureKeys_point by (simp add: loess)
  qed
  from td len lf fields show ?thesis by blast
qed

text \<open>
  C2: with the EMA line on, the record of 2024-01-01 with the amount 100 and the record
  of 2024-01-02 without an amount give the EMA series 100, \<open>null\<close>; the last valid output
  of the smoother is 100. The pipeline appends three points, dated 2024-02-02,
  2024-03-02 and 2024-04-02, with all five original fields \<open>null\<close>, but their EMA forecast
  is \<open>null\<close>: the code takes the last element of the EMA series, not its last valid
  output. With the LOESS line on, the forecast of the same records is 100, from the last
  valid output.
\<close>

theorem trendData_ema_forecast_after_gap:
  "calculateEMA seoulHost nullTail (Orig WinningPrice) 10 = [JNumber (Num 100), JNull]
   \<and> (case trendData seoulHost nullTail [] [] Amount True False of
        Inl e \<Rightarrow> False
      | Inr out \<Rightarrow>
          map (\<lambda>p. p BidDate) out
            = [JString ''2024-01-01'', JString ''2024-01-02'', JString ''2024-02-02'',
               JString ''2024-03-02'', JString ''2024-04-02'']
          \<and> map (\<lambda>p. map (\<lambda>f. p (Orig f)) (amountKeys @ ratioKeys)) (drop 2 out)
            = replicate 3 (replicate 5 JNull)
          \<and> map (\<lambda>p. p (EMA WinningPrice)) out = [JNumber (Num 100), JNull, JNull, JNull, JNull])
   \<and> (case trendData seoulHost nullTail [] [] Amount False True of
        Inl e \<Rightarrow> False
      | Inr out \<Rightarrow>
          map (\<lambda>p. p (LOESS WinningPrice)) out
            = [JNumber (Num 100), JNull, JNumber (Num 100), JNumber (Num 100), JNumber (Num 100)])"
  by code_simp

section \<open>The pipeline on the store\<close>

lemma frame_refl: "frame n s s"
  by (simp add: frame_def)

lemma frame_trans: "frame n s s' \<Longrightarrow> frame n s' s'' \<Longrightarrow> frame n s s''"
  by (auto simp: frame_def)

lemma frame_mono: "m \<le> n \<Longrightarrow> frame n s s' \<Longrightarrow> frame m s s'"
  by (auto simp: frame_def)

lemma newObject_eq:
  "newObject p s = (obj, s') \<Longrightarrow>
     obj = nextRef s \<and> nextRef s' = Suc (nextRef s) \<and> objects s' = (objects s)(nextRef s := p)
     \<and> arrays s' = arrays s"
  by (auto simp: newObject_def)

lemma newArray_eq:
  "newArray xs s = (a, s') \<Longrightarrow>
     a = nextRef s \<and> nextRef s' = Suc (nextRef s) \<and> arrays s' = (arrays s)(nextRef s := xs)
     \<and> objects s' = objects s"
  by (auto simp: newArray_def)

lemma frame_newObject: "newObject p s = (obj, s') \<Longrightarrow> frame (nextRef s) s s'"
  by (auto simp: newObject_def frame_def)

lemma frame_newArray: "newArray xs s = (a, s') \<Longrightarrow> frame (nextRef s) s s'"
  by (auto simp: newArray_def frame_def)

lemma deref_frame:
  assumes "frame (nextRef s) s s'" "inStore s a"
  shows "deref s' a = deref s a" and "inStore s' a"
proof -
  have a: "arrays s' a = arrays s a" using assms by (simp add: frame_def inStore_def)
  have o: "objects s' x = objects s x" if "x \<in> set (arrays s a)" for x
    using that assms by (simp add: frame_def inStore_def)
  show "deref s' a = deref s a" unfolding deref_def a using o by simp
  show "inStore s' a" using assms a by (auto simp: frame_def inStore_def)
qed

lemma newObjects_spec:
  "newObjects ps s = (objs, s') \<Longrightarrow>
     frame (nextRef s) s s' \<and> map (objects s') objs = ps \<and> arrays s' = arrays s
     \<and> (\<forall>x\<in>set objs. nextRef s \<le> x \<and> x < nextRef s')"
proof (induction ps arbitrary: s objs s')
  case Nil
  then show ?case by (simp add: frame_refl)
next
  case (Cons p ps)
  obtain obj s1 where n: "newObject p s = (obj, s1)" by (cases "newObject p s")
  obtain objs' s2 where r: "newObjects ps s1 = (objs', s2)" by (cases "newObjects ps s1")
  from Cons.prems n r have eq: "objs = obj # objs'" "s' = s2" by simp_all
  note e = newObject_eq[OF n]
  note ih = Cons.IH[OF r]
  have f1: "frame (nextRef s) s s1" using n by (rule frame_newObject)
  have "frame (nextRef s1) s1 s2" using ih by simp
  then have f2: "frame (nextRef s) s1 s2" using e by (auto simp: frame_def)
  have o: "objects s2 obj = p" using ih e by (simp add: frame_def)
  have lt: "nextRef s < nextRef s2" using ih e by (simp add: frame_def)
  show ?case
    unfolding eq using frame_trans[OF f1 f2] ih e o lt by auto
qed

lemma mapObjects_spec:
  assumes "mapObjects f a s = (a', s')"
  shows "frame (nextRef s) s s'" and "nextRef s \<le> a'" and "inStore s' a'"
    and "deref s' a' = map (\<lambda>i. f (deref s a ! i) i) [0..<length (deref s a)]"
proof -
  define ps where "ps = map (\<lambda>i. f (objects s (arrays s a ! i)) i) [0..<length (arrays s a)]"
  obtain objs s1 where n: "newObjects ps s = (objs, s1)" by (cases "newObjects ps s")
  from assms n have na: "newArray objs s1 = (a', s')"
    by (simp add: mapObjects_def Let_def ps_def)
  note o = newObjects_spec[OF n]
  note e = newArray_eq[OF na]
  have f1: "frame (nextRef s) s s1" using o by simp
  have "frame (nextRef s1) s1 s'" using na by (rule frame_newArray)
  then have f2: "frame (nextRef s) s1 s'" using f1 by (auto intro: frame_mono simp: frame_def)
  show "frame (nextRef s) s s'" using f1 f2 by (rule frame_trans)
  show "nextRef s \<le> a'" using e f1 by (simp add: frame_def)
  show "inStore s' a'" using e o by (auto simp: inStore_def)
  have "deref s' a' = ps" using e o by (simp add: deref_def)
  also have "ps = map (\<lambda>i. f (deref s a ! i) i) [0..<length (deref s a)]"
    unfolding ps_def deref_def by simp
  finally show "deref s' a' = map (\<lambda>i. f (deref s a ! i) i) [0..<length (deref s a)]" .
qed

lemma map_insertSorted:
  "map f (insertSorted (\<lambda>x y. cmp (f x) (f y)) x ys) = insertSorted cmp (f x) (map f ys)"
  by (induction ys) auto

lemma map_Array_sort:
  "map f (Array_sort (\<lambda>x y. cmp (f x) (f y)) xs) = Array_sort cmp (map f xs)"
  unfolding Array_sort_def by (induction xs) (simp_all add: map_insertSorted)

lemma set_insertSorted: "set (insertSorted cmp x ys) = insert x (set ys)"
  by (induction ys) auto

lemma set_Array_sort_refs: "set (Array_sort cmp xs) = set xs"
  unfolding Array_sort_def by (induction xs) (simp_all add: set_insertSorted)

lemma filterRefs_spec:
  "map_sum id (map (objects s)) (filterRefs h s dateFrom dateTo refs)
     = filterDates h dateFrom dateTo (map (objects s) refs)"
  by (induction refs) (auto split: sum.splits)

lemma filterRefs_subset:
  "filterRefs h s dateFrom dateTo refs = Inr kept \<Longrightarrow> set kept \<subseteq> set refs"
  by (induction refs arbitrary: kept) (auto split: sum.splits if_splits)

lemma smoothKey_stages:
  "smoothKey h sE sL st key =
     (let st1 = (if sE then emaStage h st key else st)
      in if sL then loessStage h st1 key else st1)"
  by (simp add: smoothKey_def emaStage_def loessStage_def Let_def)

lemma attach_mapObjects:
  assumes "mapObjects (\<lambda>d i. d(k := vals ! i)) a s = (a', s')" and c: "inStore s a"
  shows "deref s' a' = attach k vals (deref s a)" and "inStore s' a'"
    and "frame (nextRef s) s s'" and "a \<le> a'"
proof -
  note m = mapObjects_spec[OF assms(1)]
  show "deref s' a' = attach k vals (deref s a)" using m(4) by (simp add: attach_def)
  show "inStore s' a'" by (rule m(3))
  show "frame (nextRef s) s s'" by (rule m(1))
  show "a \<le> a'" using m(2) c by (simp add: inStore_def)
qed

lemma emaStageS_spec:
  assumes c: "inStore (heap r) (dataRef r)"
  shows "absRun (emaStageS h r key) = emaStage h (absRun r) key" and "runOk r (emaStageS h r key)"
proof -
  define vals where "vals = calculateEMA h (deref (heap r) (dataRef r)) (Orig key) 10"
  obtain a s where m: "mapObjects (\<lambda>d i. d(EMA key := vals ! i)) (dataRef r) (heap r) = (a, s)"
    by (cases "mapObjects (\<lambda>d i. d(EMA key := vals ! i)) (dataRef r) (heap r)")
  have e: "emaStageS h r key = r\<lparr>emaArrays := (emaArrays r)(key \<mapsto> vals), dataRef := a, heap := s\<rparr>"
    by (simp add: emaStageS_def Let_def vals_def[symmetric] m)
  note at = attach_mapObjects[OF m c]
  show "absRun (emaStageS h r key) = emaStage h (absRun r) key"
    unfolding e by (simp add: absRun_def emaStage_def Let_def vals_def[symmetric] at(1))
  show "runOk r (emaStageS h r key)"
    unfolding e using at by (simp add: runOk_def)
qed

lemma loessStageS_spec:
  assumes c: "inStore (heap r) (dataRef r)"
  shows "absRun (loessStageS h r key) = loessStage h (absRun r) key" and "runOk r (loessStageS h r key)"
proof -
  define vals where "vals = calculateLOESS h (deref (heap r) (dataRef r)) (Orig key) (3 / 10)"
  obtain a s where m: "mapObjects (\<lambda>d i. d(LOESS key := map ofNullable vals ! i)) (dataRef r) (heap r) = (a, s)"
    by (cases "mapObjects (\<lambda>d i. d(LOESS key := map ofNullable vals ! i)) (dataRef r) (heap r)")
  have e: "loessStageS h r key = r\<lparr>loessArrays := (loessArrays r)(key \<mapsto> vals), dataRef := a, heap := s\<rparr>"
    by (simp add: loessStageS_def Let_def vals_def[symmetric] m)
  note at = attach_mapObjects[OF m c]
  show "absRun (loessStageS h r key) = loessStage h (absRun r) key"
    unfolding e by (simp add: absRun_def loessStage_def Let_def vals_def[symmetric] at(1))
  show "runOk r (loessStageS h r key)"
    unfolding e using at by (simp add: runOk_def)
qed

lemma runOk_refl: "inStore (heap r) (dataRef r) \<Longrightarrow> runOk r r"
  by (simp add: runOk_def frame_refl)

lemma runOk_trans:
  assumes "runOk r r'" "runOk r' r''"
  shows "runOk r r''"
proof -
  have "frame (nextRef (heap r)) (heap r') (heap r'')"
    using assms by (auto simp: runOk_def frame_def)
  then show ?thesis using assms by (auto simp: runOk_def intro: frame_trans)
qed

lemma smoothKeyS_spec:
  assumes c: "inStore (heap r) (dataRef r)"
  shows "absRun (smoothKeyS h sE sL r key) = smoothKey h sE sL (absRun r) key"
    and "runOk r (smoothKeyS h sE sL r key)"
proof -
  define r1 where "r1 = (if sE then emaStageS h r key else r)"
  have a1: "absRun r1 = (if sE then emaStage h (absRun r) key else absRun r)"
    unfolding r1_def using emaStageS_spec(1)[OF c] by simp
  have o1: "runOk r r1"
    unfolding r1_def using emaStageS_spec(2)[OF c] runOk_refl[OF c] by simp
  then have c1: "inStore (heap r1) (dataRef r1)" by (simp add: runOk_def)
  have e: "smoothKeyS h sE sL r key = (if sL then loessStageS h r1 key else r1)"
    by (simp add: smoothKeyS_def r1_def Let_def)
  show "absRun (smoothKeyS h sE sL r key) = smoothKey h sE sL (absRun r) key"
    unfolding e smoothKey_stages using loessStageS_spec(1)[OF c1] a1 by (simp add: Let_def)
  show "runOk r (smoothKeyS h sE sL r key)"
    unfolding e using loessStageS_spec(2)[OF c1] o1 by (auto intro: runOk_trans)
qed

lemma smoothKeysS_spec:
  assumes "inStore (heap r) (dataRef r)"
  shows "absRun (foldl (smoothKeyS h sE sL) r keys) = foldl (smoothKey h sE sL) (absRun r) keys
         \<and> runOk r (foldl (smoothKeyS h sE sL) r keys)"
  using assms
proof (induction keys arbitrary: r)
  case Nil
  then show ?case by (simp add: runOk_refl)
next
  case (Cons k ks)
  note sp = smoothKeyS_spec[OF Cons.prems, of h sE sL k]
  have c: "inStore (heap (smoothKeyS h sE sL r k)) (dataRef (smoothKeyS h sE sL r k))"
    using sp(2) by (simp add: runOk_def)
  from Cons.IH[OF c] sp show ?case by (auto intro: runOk_trans)
qed


lemma setProperty_eq:
  "objects (setProperty obj k v s) = (objects s)(obj := (objects s obj)(k := v))"
  "arrays (setProperty obj k v s) = arrays s"
  "nextRef (setProperty obj k v s) = nextRef s"
  by (simp_all add: setProperty_def)

lemma futureKeyS_spec:
  assumes "emaByKey st = emaArrays r" "loessByKey st = loessArrays r"
  shows "objects (futureKeyS sE sL r idx obj s key)
           = (objects s)(obj := futureKey sE sL st idx (objects s obj) key)"
    and "arrays (futureKeyS sE sL r idx obj s key) = arrays s"
    and "nextRef (futureKeyS sE sL r idx obj s key) = nextRef s"
  using assms
  by (auto simp: futureKeyS_def futureKey_def Let_def setProperty_eq split: option.splits)

lemma futureKeysS_spec:
  assumes "emaByKey st = emaArrays r" "loessByKey st = loessArrays r"
  shows "objects (foldl (futureKeyS sE sL r idx obj) s keys)
           = (objects s)(obj := foldl (futureKey sE sL st idx) (objects s obj) keys)
         \<and> arrays (foldl (futureKeyS sE sL r idx obj) s keys) = arrays s
         \<and> nextRef (foldl (futureKeyS sE sL r idx obj) s keys) = nextRef s"
proof (induction keys arbitrary: s)
  case Nil
  then show ?case by simp
next
  case (Cons k ks)
  note f = futureKeyS_spec[OF assms, of sE sL idx obj s k]
  show ?case using Cons.IH[of "futureKeyS sE sL r idx obj s k"] f by (auto simp: fun_eq_iff)
qed

lemma futurePointS_spec:
  fixes sE sL keys dates idx
  assumes m: "emaByKey st = emaArrays r" "loessByKey st = loessArrays r"
    and c: "inStore s (dataRef r)" and n: "n \<le> dataRef r"
  defines "s' \<equiv> futurePointS sE sL keys r dates s idx"
  shows "deref s' (dataRef r)
           = deref s (dataRef r) @ [foldl (futureKey sE sL st idx) (emptyFuturePoint (dates ! idx)) keys]"
    and "inStore s' (dataRef r)" and "frame n s s'"
proof -
  define obj where "obj = nextRef s"
  define s1 where "s1 = snd (newObject (emptyFuturePoint (dates ! idx)) s)"
  define s2 where "s2 = foldl (futureKeyS sE sL r idx obj) s1 keys"
  define p where "p = foldl (futureKey sE sL st idx) (emptyFuturePoint (dates ! idx)) keys"
  have n1: "newObject (emptyFuturePoint (dates ! idx)) s = (obj, s1)"
    by (simp add: newObject_def obj_def s1_def)
  note e1 = newObject_eq[OF n1]
  note k = futureKeysS_spec[OF m, of sE sL idx obj s1 keys, folded s2_def]
  have s': "s' = push (dataRef r) obj s2"
    unfolding s'_def futurePointS_def Let_def n1 s2_def by simp
  have lt: "dataRef r < obj" "\<forall>x\<in>set (arrays s (dataRef r)). x < obj"
    using c by (simp_all add: inStore_def obj_def)
  have o2: "objects s2 = (objects s)(obj := p)"
    using k e1 by (simp add: p_def obj_def)
  have a2: "arrays s2 = arrays s" using k e1 by simp
  have n2: "nextRef s2 = Suc obj" using k e1 by (simp add: obj_def)
  have os': "objects s' = (objects s)(obj := p)" unfolding s' by (simp add: push_def o2)
  have as': "arrays s' = (arrays s)(dataRef r := arrays s (dataRef r) @ [obj])"
    unfolding s' by (simp add: push_def a2)
  have ns': "nextRef s' = Suc obj" unfolding s' by (simp add: push_def n2)
  have old: "map (objects s') (arrays s (dataRef r)) = map (objects s) (arrays s (dataRef r))"
    using lt(2) by (auto simp: os')
  show "deref s' (dataRef r) = deref s (dataRef r) @ [p]"
    unfolding deref_def as' using old by (simp add: os')
  show "inStore s' (dataRef r)"
    using lt by (auto simp: inStore_def as' ns' less_Suc_eq)
  show "frame n s s'"
    using n lt(1) by (auto simp: frame_def os' as' ns' obj_def)
qed

lemma futurePointsS_spec:
  assumes m: "emaByKey st = emaArrays r" "loessByKey st = loessArrays r"
    and n: "n \<le> dataRef r"
  shows "inStore s (dataRef r) \<Longrightarrow>
         deref (foldl (futurePointS sE sL keys r dates) s idxs) (dataRef r)
           = deref s (dataRef r)
             @ map (\<lambda>idx. foldl (futureKey sE sL st idx) (emptyFuturePoint (dates ! idx)) keys) idxs
         \<and> inStore (foldl (futurePointS sE sL keys r dates) s idxs) (dataRef r)
         \<and> frame n s (foldl (futurePointS sE sL keys r dates) s idxs)"
proof (induction idxs arbitrary: s)
  case Nil
  then show ?case by (simp add: frame_refl)
next
  case (Cons i idxs)
  note f = futurePointS_spec[OF m Cons.prems n, of sE sL keys dates i]
  from Cons.IH[OF f(2)] f(1,3) show ?case by (auto intro: frame_trans)
qed


lemma map_nth_index: "map (\<lambda>i. f (xs ! i)) [0..<length xs] = map f xs"
  by (rule nth_equalityI) simp_all

lemma sorted_copy:
  assumes c: "inStore s rawData"
    and sp: "spread rawData s = (srt, s1)"
    and s2: "s2 = sortByBidDate h srt s1"
  shows "frame (nextRef s) s s2" and "inStore s2 srt" and "nextRef s \<le> srt"
    and "deref s2 srt = Array_sort (compareBidDate h) (deref s rawData)"
proof -
  note e = newArray_eq[OF sp[unfolded spread_def]]
  have o2: "objects s2 = objects s" unfolding s2 sortByBidDate_def using e by simp
  have n2: "nextRef s2 = Suc (nextRef s)" unfolding s2 sortByBidDate_def using e by simp
  have a2: "arrays s2 = (arrays s)(srt :=
              Array_sort (\<lambda>x y. compareBidDate h (objects s x) (objects s y)) (arrays s rawData))"
  proof -
    have o1: "objects s1 = objects s" and a1: "arrays s1 = (arrays s)(srt := arrays s rawData)"
      using e by simp_all
    show ?thesis unfolding s2 sortByBidDate_def by (simp add: o1 a1)
  qed
  show "frame (nextRef s) s s2" using e by (simp add: frame_def o2 n2 a2)
  show "nextRef s \<le> srt" using e by simp
  show "inStore s2 srt"
    using c e by (auto simp: inStore_def n2 a2 set_Array_sort_refs less_Suc_eq)
  show "deref s2 srt = Array_sort (compareBidDate h) (deref s rawData)"
    unfolding deref_def o2 a2 by (simp add: map_Array_sort)
qed

lemma filterByDate_spec:
  assumes c: "inStore s a"
  shows "case filterByDate h dateFrom dateTo a s of
           Inl e \<Rightarrow> filterDates h dateFrom dateTo (deref s a) = Inl e
         | Inr (a', s') \<Rightarrow> filterDates h dateFrom dateTo (deref s a) = Inr (deref s' a')
                           \<and> inStore s' a' \<and> frame (nextRef s) s s' \<and> nextRef s \<le> a'"
proof (cases "filterRefs h s dateFrom dateTo (arrays s a)")
  case (Inl e)
  then show ?thesis
    using filterRefs_spec[of s h dateFrom dateTo "arrays s a"]
    by (simp add: filterByDate_def deref_def)
next
  case (Inr kept)
  obtain a' s' where n: "newArray kept s = (a', s')" by (cases "newArray kept s")
  note e = newArray_eq[OF n]
  have sub: "set kept \<subseteq> set (arrays s a)" using Inr by (rule filterRefs_subset)
  have d: "deref s' a' = map (objects s) kept" using e by (simp add: deref_def)
  have f: "filterDates h dateFrom dateTo (deref s a) = Inr (deref s' a')"
    using filterRefs_spec[of s h dateFrom dateTo "arrays s a"] Inr d by (simp add: deref_def)
  have cl: "inStore s' a'" using e c sub by (auto simp: inStore_def less_Suc_eq)
  have fr: "frame (nextRef s) s s'" using n by (rule frame_newArray)
  show ?thesis using Inr n f cl fr e by (simp add: filterByDate_def)
qed

lemma trendDataS_spec:
  assumes c: "inStore s rawData"
    and run: "trendDataS h rawData dateFrom dateTo md sE sL s = (res, s')"
  shows "frame (nextRef s) s s'"
    and "map_sum id (deref s') res = trendData h (deref s rawData) dateFrom dateTo md sE sL"
proof -
  obtain srt s1 where sp: "spread rawData s = (srt, s1)" by (cases "spread rawData s")
  define s2 where "s2 = sortByBidDate h srt s1"
  note so = sorted_copy[OF c sp s2_def]
  note fb = filterByDate_spec[OF so(2), of h dateFrom dateTo]
  have fr: "filteredRecords h (deref s rawData) dateFrom dateTo
              = filterDates h dateFrom dateTo (deref s2 srt)"
    by (simp add: filteredRecords_def so(4))
  show "frame (nextRef s) s s'"
    and "map_sum id (deref s') res = trendData h (deref s rawData) dateFrom dateTo md sE sL"
  proof (atomize (full), cases "filterByDate h dateFrom dateTo srt s2")
    case (Inl e)
    then have r: "res = Inl e" "s' = s2"
      using run by (simp_all add: trendDataS_def sp s2_def Let_def)
    have "filteredRecords h (deref s rawData) dateFrom dateTo = Inl e" using fb Inl fr by simp
    then have "trendData h (deref s rawData) dateFrom dateTo md sE sL = Inl e"
      unfolding trendData_def by (simp only: sum.case)
    then show "frame (nextRef s) s s'
       \<and> map_sum id (deref s') res = trendData h (deref s rawData) dateFrom dateTo md sE sL"
      using r so(1) by simp
  next
    case (Inr fs)
    obtain filtered s3 where fs: "fs = (filtered, s3)" by (cases fs)
    from fb Inr fs have f3: "filteredRecords h (deref s rawData) dateFrom dateTo = Inr (deref s3 filtered)"
      and c3: "inStore s3 filtered" and fr3: "frame (nextRef s2) s2 s3" and n3: "nextRef s2 \<le> filtered"
      using fr by simp_all
    have le2: "nextRef s \<le> nextRef s2" using so(1) by (simp add: frame_def)
    have fr3': "frame (nextRef s) s s3"
      using so(1) frame_mono[OF le2 fr3] by (rule frame_trans)
    define ps where "ps = (if md = Amount then (filtered, s3)
                            else mapObjects (\<lambda>d i. ratioPoint h d) filtered s3)"
    obtain processed s4 where ps4: "ps = (processed, s4)" by (cases ps)
    define P where "P = (if md = Amount then deref s3 filtered else map (ratioPoint h) (deref s3 filtered))"
    have p4: "deref s4 processed = P \<and> inStore s4 processed \<and> frame (nextRef s) s s4
              \<and> nextRef s \<le> processed"
    proof (cases "md = Amount")
      case True
      then have "processed = filtered" "s4 = s3" using ps4 by (simp_all add: ps_def)
      then show ?thesis using True c3 fr3' n3 le2 by (simp add: P_def)
    next
      case False
      then have m: "mapObjects (\<lambda>d i. ratioPoint h d) filtered s3 = (processed, s4)"
        using ps4 by (simp add: ps_def)
      note ms = mapObjects_spec[OF m]
      have le3: "nextRef s \<le> nextRef s3" using fr3' by (simp add: frame_def)
      have "frame (nextRef s) s s4" using fr3' frame_mono[OF le3 ms(1)] by (rule frame_trans)
      then show ?thesis using False ms le3 by (simp add: P_def map_nth_index)
    qed
    define keys where "keys = (if md = Amount then amountKeys else ratioKeys)"
    define r0 where "r0 = \<lparr>dataRef = processed, emaArrays = Map.empty, loessArrays = Map.empty, heap = s4\<rparr>"
    define r where "r = foldl (smoothKeyS h sE sL) r0 keys"
    define st0 where "st0 = \<lparr>processedData = P, emaByKey = Map.empty, loessByKey = Map.empty\<rparr>"
    define st where "st = foldl (smoothKey h sE sL) st0 keys"
    have c0: "inStore (heap r0) (dataRef r0)" using p4 by (simp add: r0_def)
    have a0: "absRun r0 = st0" using p4 by (simp add: absRun_def r0_def st0_def)
    from smoothKeysS_spec[OF c0, of h sE sL keys]
    have ar: "absRun r = st" and ok: "runOk r0 r" by (simp_all add: r_def st_def a0)
    have cr: "inStore (heap r) (dataRef r)" using ok by (simp add: runOk_def)
    have dr: "deref (heap r) (dataRef r) = processedData st"
      unfolding ar[symmetric] by (simp add: absRun_def)
    have mr: "emaByKey st = emaArrays r" "loessByKey st = loessArrays r"
      unfolding ar[symmetric] by (simp_all add: absRun_def)
    have le4: "nextRef s \<le> nextRef s4" using p4 by (simp add: frame_def)
    have "frame (nextRef s4) s4 (heap r)" using ok by (simp add: runOk_def r0_def)
    then have frr: "frame (nextRef s) s (heap r)"
      using p4 frame_mono[OF le4] by (blast intro: frame_trans)
    have nr: "nextRef s \<le> dataRef r" using ok p4 by (simp add: runOk_def r0_def)
    have fb': "filterByDate h dateFrom dateTo srt (sortByBidDate h srt s1) = Inr (filtered, s3)"
      using Inr fs by (simp add: s2_def)
    have run': "trendDataS h rawData dateFrom dateTo md sE sL s =
           (if (sE \<or> sL) \<and> arrays (heap r) (dataRef r) \<noteq> []
            then (let lastDate = objects (heap r) (last (arrays (heap r) (dataRef r))) BidDate
                  in case generateFutureDates h lastDate 3 of
                       Inl e \<Rightarrow> (Inl e, heap r)
                     | Inr futureDates \<Rightarrow>
                         (Inr (dataRef r),
                          foldl (futurePointS sE sL keys r futureDates) (heap r) [0..<length futureDates]))
            else (Inr (dataRef r), heap r))"
      unfolding trendDataS_def r_def r0_def keys_def
      by (simp only: Let_def sp prod.case fb' sum.case ps4[unfolded ps_def])
    note run' = run'[unfolded run]
    have td: "trendData h (deref s rawData) dateFrom dateTo md sE sL =
           (if (sE \<or> sL) \<and> processedData st \<noteq> []
            then (let lastDate = (last (processedData st)) BidDate
                  in case generateFutureDates h lastDate 3 of
                       Inl e \<Rightarrow> Inl e
                     | Inr futureDates \<Rightarrow>
                         Inr (processedData st @ futurePoints sE sL keys st futureDates))
            else Inr (processedData st))"
      unfolding trendData_def st_def st0_def keys_def P_def
      by (simp only: Let_def f3 sum.case)
    have ne: "arrays (heap r) (dataRef r) \<noteq> [] \<longleftrightarrow> processedData st \<noteq> []"
      using dr by (auto simp: deref_def)
    have ld: "objects (heap r) (last (arrays (heap r) (dataRef r))) BidDate = (last (processedData st)) BidDate"
      if "arrays (heap r) (dataRef r) \<noteq> []"
      using that dr by (simp add: deref_def last_map[symmetric])
    show "frame (nextRef s) s s'
       \<and> map_sum id (deref s') res = trendData h (deref s rawData) dateFrom dateTo md sE sL"
    proof (cases "(sE \<or> sL) \<and> arrays (heap r) (dataRef r) \<noteq> []")
      case False
      then have "res = Inr (dataRef r)" "s' = heap r" using run' by auto
      then show ?thesis using False frr dr ne unfolding td by auto
    next
      case True
      then have ne': "arrays (heap r) (dataRef r) \<noteq> []" by simp
      show ?thesis
      proof (cases "generateFutureDates h ((last (processedData st)) BidDate) 3")
        case (Inl e)
        then have "res = Inl e" "s' = heap r" using run' True ld[OF ne'] by (simp_all add: Let_def)
        then show ?thesis using True Inl frr ne unfolding td by (auto simp: Let_def)
      next
        case (Inr dates)
        then have rs: "res = Inr (dataRef r)"
          "s' = foldl (futurePointS sE sL keys r dates) (heap r) [0..<length dates]"
          using run' True ld[OF ne'] by (simp_all add: Let_def)
        note fp = futurePointsS_spec[OF mr nr cr, of sE sL keys dates "[0..<length dates]", folded rs(2)]
        have "deref s' (dataRef r) = processedData st @ futurePoints sE sL keys st dates"
          using fp dr by (simp add: futurePoints_def)
        moreover have "frame (nextRef s) s s'" using frr fp by (blast intro: frame_trans)
        ultimately show ?thesis using True Inr rs(1) ne unfolding td by (auto simp: Let_def)
      qed
    qed
  qed
qed

lemma shuffled_data:
  "case trendData seoulHost
          [winningBid ''2024-01-03'' (JNumber (Num 20)), winningBid ''2024-01-01'' (JNumber (Num 10)),
           winningBid ''2024-01-02'' JNull] [] [] Amount True True of
     Inl e \<Rightarrow> False
   | Inr data \<Rightarrow> map (\<lambda>p. p BidDate) data
                   = [JString ''2024-01-01'', JString ''2024-01-02'', JString ''2024-01-03'',
                      JString ''2024-02-03'', JString ''2024-03-03'', JString ''2024-04-03'']"
  by code_simp

text \<open>
  C9: run on a store that holds the array \<open>rawData\<close> and its records, the pipeline changes
  no object and no array that was there before the run, \<open>rawData\<close> and its records
  included: the array it sorts in place is its own copy, the array it pushes to and the
  objects it writes are new. The records that it returns are the value of the function
  \<open>trendData\<close> on the records of \<open>rawData\<close>, the bounds, the mode and the toggles, whatever
  else the store holds; and a second run, on the store that the first has left,
  returns the same records.
\<close>

theorem trendDataS_leaves_store:
  assumes "inStore s rawData"
  shows "case trendDataS h rawData dateFrom dateTo md showEMA showLOESS s of
           (res, s') \<Rightarrow>
             (\<forall>a<nextRef s. objects s' a = objects s a \<and> arrays s' a = arrays s a)
           \<and> deref s' rawData = deref s rawData
           \<and> map_sum id (deref s') res
                = trendData h (deref s rawData) dateFrom dateTo md showEMA showLOESS
           \<and> (case trendDataS h rawData dateFrom dateTo md showEMA showLOESS s' of
                 (res2, s'') \<Rightarrow> map_sum id (deref s'') res2 = map_sum id (deref s') res)"
proof -
  obtain res s' where r: "trendDataS h rawData dateFrom dateTo md showEMA showLOESS s = (res, s')"
    by (cases "trendDataS h rawData dateFrom dateTo md showEMA showLOESS s")
  obtain res2 s'' where r2: "trendDataS h rawData dateFrom dateTo md showEMA showLOESS s' = (res2, s'')"
    by (cases "trendDataS h rawData dateFrom dateTo md showEMA showLOESS s'")
  note t = trendDataS_spec[OF assms r]
  have fr: "\<forall>a<nextRef s. objects s' a = objects s a \<and> arrays s' a = arrays s a"
    using t(1) by (simp add: frame_def)
  note d = deref_frame[OF t(1) assms]
  note t2 = trendDataS_spec[OF d(2) r2]
  have "map_sum id (deref s'') res2 = map_sum id (deref s') res"
    unfolding t2(2) t(2) d(1) ..
  then show ?thesis using fr d(1) t(2) by (simp add: r r2)
qed

theorem trendDataS_leaves_store_witness:
  "inStore shuffledStore 3
   \<and> (case trendDataS seoulHost 3 [] [] Amount True True shuffledStore of
         (res, s') \<Rightarrow>
           arrays s' 3 = [0, 1, 2]
         \<and> map (\<lambda>p. p BidDate) (deref s' 3)
              = [JString ''2024-01-03'', JString ''2024-01-01'', JString ''2024-01-02'']
         \<and> (case res of
               Inl e \<Rightarrow> False
             | Inr out \<Rightarrow> map (\<lambda>p. p BidDate) (deref s' out)
                       = [JString ''2024-01-01'', JString ''2024-01-02'', JString ''2024-01-03'',
                          JString ''2024-02-03'', JString ''2024-03-03'', JString ''2024-04-03'']))"
proof -
  have c: "inStore shuffledStore 3" by (simp add: inStore_def shuffledStore_def)
  obtain res s' where r: "trendDataS seoulHost 3 [] [] Amount True True shuffledStore = (res, s')"
    by (cases "trendDataS seoulHost 3 [] [] Amount True True shuffledStore")
  have raw: "deref shuffledStore 3 =
          [winningBid ''2024-01-03'' (JNumber (Num 20)), winningBid ''2024-01-01'' (JNumber (Num 10)),
           winningBid ''2024-01-02'' JNull]"
    by (simp add: deref_def shuffledStore_def)
  from trendDataS_leaves_store[OF c, of seoulHost "[]" "[]" Amount True True]
  have f: "\<forall>a<nextRef shuffledStore. objects s' a = objects shuffledStore a \<and> arrays s' a = arrays shuffledStore a"
    and d: "deref s' 3 = deref shuffledStore 3"
    and t: "map_sum id (deref s') res = trendData seoulHost (deref shuffledStore 3) [] [] Amount True True"
    unfolding r by simp_all
  have "(3::nat) < nextRef shuffledStore" by (simp add: shuffledStore_def)
  with f have a: "arrays s' 3 = [0, 1, 2]" by (simp add: shuffledStore_def)
  have b: "map (\<lambda>p. p BidDate) (deref s' 3)
              = [JString ''2024-01-03'', JString ''2024-01-01'', JString ''2024-01-02'']"
    unfolding d raw by (simp add: winningBid_def mapBidToTrendItem_def)
  have e: "case res of
               Inl e \<Rightarrow> False
             | Inr out \<Rightarrow> map (\<lambda>p. p BidDate) (deref s' out)
                       = [JString ''2024-01-01'', JString ''2024-01-02'', JString ''2024-01-03'',
                          JString ''2024-02-03'', JString ''2024-03-03'', JString ''2024-04-03'']"
    using shuffled_data t unfolding raw by (cases res) (auto split: sum.splits)
  from c a b e show ?thesis unfolding r by simp
qed

end
